theory Spec2Isabelle
  imports Complex_Main "HOL-Library.Word"
begin

unbundle bit_operations_syntax

section \<open>Data model of yacv_server\<close>

text \<open>
  The development embeds \<^verbatim>\<open>src/yacv_server/yacv.py\<close> (class \<^verbatim>\<open>YACV\<close>) and the lookup
  phase of \<^verbatim>\<open>Server.export\<close> of \<^verbatim>\<open>src/yacv_server/server.py\<close>. One producer thread is
  modelled: every method is a function from the state before the call to an outcome and
  the state after it. The two locks of the class are acquired and released inside one
  method call, so they carry no state between calls and are left out.
\<close>

type_synonym bytes = "8 word list"

text \<open>Values of the keyword options of \<^verbatim>\<open>show\<close>, with Python's truth value.\<close>

datatype pyval = PyBool bool | PyFloat real | PyStr string | PyNone

fun truthy :: "pyval \<Rightarrow> bool" where
  "truthy (PyBool b) = b"
| "truthy (PyFloat x) = (x \<noteq> 0)"
| "truthy (PyStr s) = (s \<noteq> [])"
| "truthy PyNone = False"

type_synonym kwargs = "string \<rightharpoonup> pyval"

text \<open>\<^verbatim>\<open>d.get(key, default)\<close>\<close>

definition dict_get :: "kwargs \<Rightarrow> string \<Rightarrow> pyval \<Rightarrow> pyval" where
  "dict_get d k dflt = (case d k of None \<Rightarrow> dflt | Some v \<Rightarrow> v)"

text \<open>
  \<^verbatim>\<open>YACVSupported = Union[bytes, CADCoreLike]\<close>: a payload is raw bytes (an artifact that
  is already built) or a CAD object of the opaque type \<open>'c\<close>.
\<close>

datatype 'c payload = Bytes bytes | Cad 'c

text \<open>\<^verbatim>\<open>UpdatesApiFullData\<close>: the three serialised fields and the two that are not.\<close>

record 'c event =
  name :: string
  hash :: string
  is_remove :: bool
  obj :: "'c payload"
  kwargs :: kwargs

text \<open>
  \<^verbatim>\<open>UpdatesApiData\<close> is a \<^verbatim>\<open>@dataclass\<close>, so it has a generated \<^verbatim>\<open>__eq__\<close> over its
  declared fields \<^verbatim>\<open>name\<close>, \<^verbatim>\<open>hash\<close>, \<^verbatim>\<open>is_remove\<close>. \<^verbatim>\<open>UpdatesApiFullData\<close> inherits it
  and is not a dataclass itself: \<^verbatim>\<open>==\<close> on events ignores \<^verbatim>\<open>obj\<close> and \<^verbatim>\<open>kwargs\<close>.
\<close>

definition ev_eq :: "'c event \<Rightarrow> 'c event \<Rightarrow> bool" where
  "ev_eq a b \<longleftrightarrow> name a = name b \<and> hash a = hash b \<and> is_remove a = is_remove b"

datatype error =
    AssertionError string
  | ValueError string
  | UnsupportedObjectError
  | BuildFailure
  | HTTPNotFound string
  | KeyError string
  | AttributeError string
  | SystemExit int

text \<open>
  A call returns a value, raises, or never returns (\<open>Blocks\<close>: a read on a subscription
  that nothing will ever feed, or a wait on an event that nothing will ever set).
\<close>

datatype 'a outcome = Returns 'a | Raises error | Blocks

datatype level = DEBUG | INFO | WARNING | ERROR

datatype thread = Thread string bool

datatype http_server = ThreadingHTTPServer

text \<open>
  The instance fields of \<^verbatim>\<open>YACV\<close>, followed by what the methods change outside the
  instance: the module global \<^verbatim>\<open>_find_var_name_count\<close>, the records handed to the
  logger (level and format string), the CAD objects handed to \<^verbatim>\<open>tessellate\<close> (one entry
  per invocation), the signal numbers whose handler is \<^verbatim>\<open>stop\<close>, and the number of
  \<^verbatim>\<open>atexit\<close> registrations of \<^verbatim>\<open>stop\<close>.
\<close>

record 'c yacv =
  server_thread :: "thread option"
  server :: "http_server option"
  startup_complete :: bool
  at_least_one_client :: bool
  show_events :: "'c event list"
  build_events :: "string \<rightharpoonup> bytes list"
  find_var_name_count :: nat
  logged :: "(level \<times> string) list"
  tessellated :: "'c list"
  signal_handlers :: "int list"
  atexit_registered :: nat

text \<open>\<^verbatim>\<open>YACV.__init__\<close>\<close>

definition init :: "'c yacv" where
  "init = \<lparr> server_thread = None, server = None, startup_complete = False,
            at_least_one_client = False, show_events = [], build_events = Map.empty,
            find_var_name_count = 0, logged = [(INFO, ''Using yacv-server v%s'')],
            tessellated = [], signal_handlers = [], atexit_registered = 0 \<rparr>"

text \<open>
  The collaborators that are not part of the two source files, as parameters:
  \<^verbatim>\<open>yacv_server.cad.get_shape\<close> (\<open>None\<close>: it raises), the two \<^verbatim>\<open>isinstance\<close> tests and
  the two coordinate changes of \<^verbatim>\<open>_preprocess_cad\<close>, \<^verbatim>\<open>tessellate._hashcode\<close>,
  \<^verbatim>\<open>tessellate.tessellate\<close> followed by \<^verbatim>\<open>save_to_bytes\<close> (\<open>None\<close>: it raises), the
  variable name that the scan of \<^verbatim>\<open>inspect.stack()\<close> finds for an object, and whether the
  serving thread manages to create its \<^verbatim>\<open>ThreadingHTTPServer\<close>.
\<close>

record 'c env =
  get_shape :: "'c \<Rightarrow> 'c option"
  is_TopoDS_Shape :: "'c \<Rightarrow> bool"
  rotate_x :: "'c \<Rightarrow> 'c"
  is_TopLoc_Location :: "'c \<Rightarrow> bool"
  location_y_up :: "'c \<Rightarrow> 'c"
  hashcode :: "'c payload \<Rightarrow> kwargs \<Rightarrow> string"
  tessellate :: "'c \<Rightarrow> pyval \<Rightarrow> pyval \<Rightarrow> pyval \<Rightarrow> pyval \<Rightarrow> pyval \<Rightarrow> bytes list option"
  stack_var :: "'c payload \<Rightarrow> string option"
  make_server :: "http_server option"

section \<open>The broadcast buffer\<close>

text \<open>
  Modelled from the spec: the module \<^verbatim>\<open>yacv_server/pubsub.py\<close> (class
  \<^verbatim>\<open>BufferedPubSub\<close>) is not among the source files. A Topic is its ordered sequence of
  items: \<open>publish\<close> appends an item, \<open>delete\<close> removes an item from the sequence (the
  first item equal to it under the items' own equality; nothing when there is none) and
  \<open>buffer\<close> is one snapshot of the sequence. Subscriber cursors are not modelled; the
  one read that the methods below make, the first item of a fresh subscription, is
  \<open>first_item\<close>. The spec has \<^verbatim>\<open>export\<close> subscribe to the entry's result Topic and
  return the first (and only) delivered item, and both \<^verbatim>\<open>export\<close> methods publish that
  item before they subscribe: a fresh subscription delivers the stored items in order, and
  the read blocks while there is none.
\<close>

fun remove_first :: "('a \<Rightarrow> 'a \<Rightarrow> bool) \<Rightarrow> 'a \<Rightarrow> 'a list \<Rightarrow> 'a list" where
  "remove_first eq x [] = []"
| "remove_first eq x (y # ys) = (if eq y x then ys else y # remove_first eq x ys)"

definition publish :: "'a \<Rightarrow> 'a list \<Rightarrow> 'a list" where
  "publish item items = items @ [item]"

definition delete :: "'c event \<Rightarrow> 'c event list \<Rightarrow> 'c event list" where
  "delete item items = remove_first ev_eq item items"

definition buffer :: "'a list \<Rightarrow> 'a list" where
  "buffer items = items"

definition first_item :: "'a list \<Rightarrow> 'a outcome" where
  "first_item items = (case items of [] \<Rightarrow> Blocks | x # _ \<Rightarrow> Returns x)"

section \<open>The show event log\<close>

text \<open>
  The inner loop of \<^verbatim>\<open>_show_events\<close>, \<^verbatim>\<open>for old_event in res: ... res.remove(old_event)\<close>,
  mutates the list it iterates over. Python's list iterator holds an index \<open>i\<close>: it stops
  when \<open>i\<close> reaches the current length, otherwise it yields \<open>res[i]\<close> and increments.
  \<^verbatim>\<open>res.remove(old_event)\<close> removes the first element equal to \<open>old_event\<close>; it cannot
  raise here, since \<open>old_event\<close> is an element of \<open>res\<close>.
\<close>

function purge :: "'c event \<Rightarrow> nat \<Rightarrow> 'c event list \<Rightarrow> 'c event list" where
  "purge ev i res =
     (if i < length res
      then (if name (res ! i) = name ev
            then purge ev (Suc i) (remove_first ev_eq (res ! i) res)
            else purge ev (Suc i) res)
      else res)"
  by pat_completeness auto

termination purge
proof (relation "measure (\<lambda>(ev, i, res). length res - i)")
  show "wf (measure (\<lambda>(ev :: 'a event, i, res :: 'a event list). length res - i))"
    by simp
next
  fix ev :: "'a event" and i and res :: "'a event list"
  assume "i < length res"
  moreover have "length (remove_first ev_eq x xs) \<le> length xs" for x and xs :: "'a event list"
    by (induction xs) auto
  then have "length (remove_first ev_eq (res ! i) res) \<le> length res" .
  ultimately show "((ev, Suc i, remove_first ev_eq (res ! i) res), (ev, i, res))
      \<in> measure (\<lambda>(ev, i, res). length res - i)"
    by simp
next
  fix ev :: "'a event" and i and res :: "'a event list"
  assume "i < length res"
  then show "((ev, Suc i, res), (ev, i, res)) \<in> measure (\<lambda>(ev, i, res). length res - i)"
    by simp
qed

declare purge.simps [simp del]

text \<open>
  The outer loop of \<^verbatim>\<open>_show_events\<close> over the snapshot, with \<open>res\<close> as accumulator, and
  the method itself, named \<open>show_events_of\<close> here since \<open>show_events\<close> is the field.
\<close>

fun show_events_loop :: "string \<Rightarrow> bool \<Rightarrow> 'c event list \<Rightarrow> 'c event list \<Rightarrow> 'c event list" where
  "show_events_loop nm apply_removes [] res = res"
| "show_events_loop nm apply_removes (event # rest) res =
     (if name event = nm
      then (if \<not> is_remove event \<or> \<not> apply_removes
            then show_events_loop nm apply_removes rest (res @ [event])
            else show_events_loop nm apply_removes rest (purge event 0 res))
      else show_events_loop nm apply_removes rest res)"

definition show_events_of :: "'c yacv \<Rightarrow> string \<Rightarrow> bool \<Rightarrow> 'c event list" where
  "show_events_of s nm apply_removes =
     show_events_loop nm apply_removes (buffer (show_events s)) []"

text \<open>
  \<^verbatim>\<open>shown_object_names\<close>: \<^verbatim>\<open>res.remove(obj.name)\<close> on a list of strings raises
  \<^verbatim>\<open>ValueError\<close> when the name is not in the list.
\<close>

fun names_loop :: "bool \<Rightarrow> 'c event list \<Rightarrow> string list \<Rightarrow> string list outcome" where
  "names_loop apply_removes [] res = Returns res"
| "names_loop apply_removes (ob # rest) res =
     (if \<not> is_remove ob \<or> \<not> apply_removes
      then names_loop apply_removes rest (res @ [name ob])
      else if name ob \<in> set res
           then names_loop apply_removes rest (remove1 (name ob) res)
           else Raises (ValueError ''list.remove(x): x not in list''))"

definition shown_object_names :: "'c yacv \<Rightarrow> bool \<Rightarrow> string list outcome" where
  "shown_object_names s apply_removes = names_loop apply_removes (buffer (show_events s)) []"

text \<open>
  \<^verbatim>\<open>remove\<close>: the loop deleting the old show events, the cache entry, and the tombstone,
  a copy of the last show event with \<^verbatim>\<open>is_remove\<close> set. The method has no \<^verbatim>\<open>raise\<close> and
  no \<^verbatim>\<open>else\<close> branch.
\<close>

definition del_key :: "('k \<rightharpoonup> 'v) \<Rightarrow> 'k \<Rightarrow> ('k \<rightharpoonup> 'v)" where
  "del_key m k = (if k \<in> dom m then m(k := None) else m)"

definition remove :: "'c yacv \<Rightarrow> string \<Rightarrow> unit outcome \<times> 'c yacv" where
  "remove s nm =
     (let evs = show_events_of s nm True in
      if length evs > 0
      then (let s1 = s\<lparr>show_events := foldl (\<lambda>items old. delete old items) (show_events s) evs\<rparr>;
                s2 = s1\<lparr>build_events := del_key (build_events s1) nm\<rparr>;
                show_event = (last evs)\<lparr>is_remove := True\<rparr>
            in (Returns (), s2\<lparr>show_events := publish show_event (show_events s2)\<rparr>))
      else (Returns (), s))"

text \<open>\<^verbatim>\<open>clear\<close>: the loop runs over a snapshot of the buffer taken before the first removal.\<close>

fun clear_loop :: "string list \<Rightarrow> 'c event list \<Rightarrow> 'c yacv \<Rightarrow> unit outcome \<times> 'c yacv" where
  "clear_loop except_names [] s = (Returns (), s)"
| "clear_loop except_names (event # rest) s =
     (if name event \<notin> set except_names
      then (case remove s (name event) of
              (Returns u, s') \<Rightarrow> clear_loop except_names rest s'
            | (Raises e, s') \<Rightarrow> (Raises e, s')
            | (Blocks, s') \<Rightarrow> (Blocks, s'))
      else clear_loop except_names rest s)"

definition clear :: "'c yacv \<Rightarrow> string list option \<Rightarrow> unit outcome \<times> 'c yacv" where
  "clear s except_names =
     clear_loop (case except_names of None \<Rightarrow> [] | Some ns \<Rightarrow> ns) (buffer (show_events s)) s"

subsection \<open>show\<close>

text \<open>\<^verbatim>\<open>str(n)\<close> for a natural number: its decimal digits.\<close>

fun str_nat :: "nat \<Rightarrow> string" where
  "str_nat n = (if n < 10 then [char_of (48 + n)]
                else str_nat (n div 10) @ [char_of (48 + n mod 10)])"

declare str_nat.simps [simp del]

text \<open>
  \<^verbatim>\<open>_find_var_name\<close>: the name found by the stack scan, or a numbered placeholder; the
  counter is the module global. The list comprehension of \<^verbatim>\<open>show\<close> calls it once per
  object, in order.
\<close>

definition find_var_name :: "'c env \<Rightarrow> nat \<Rightarrow> 'c payload \<Rightarrow> string \<times> nat" where
  "find_var_name env cnt ob =
     (case stack_var env ob of
        Some key \<Rightarrow> (key, cnt)
      | None \<Rightarrow> (''unknown_var_'' @ str_nat (cnt + 1), cnt + 1))"

fun find_var_names :: "'c env \<Rightarrow> nat \<Rightarrow> 'c payload list \<Rightarrow> string list \<times> nat" where
  "find_var_names env cnt [] = ([], cnt)"
| "find_var_names env cnt (ob # obs) =
     (case find_var_name env cnt ob of
        (n, cnt1) \<Rightarrow> (case find_var_names env cnt1 obs of (ns, cnt2) \<Rightarrow> (n # ns, cnt2)))"

text \<open>The \<^verbatim>\<open>names\<close> argument: \<^verbatim>\<open>None\<close>, one string, or a list of strings.\<close>

datatype names_arg = NamesNone | NamesStr string | NamesList "string list"

text \<open>
  \<^verbatim>\<open>names = names or [...]\<close> followed by the \<^verbatim>\<open>isinstance(names, str)\<close> wrapping: an
  empty string and an empty list are false, like \<^verbatim>\<open>None\<close>.
\<close>

definition resolve_names :: "'c env \<Rightarrow> nat \<Rightarrow> 'c payload list \<Rightarrow> names_arg \<Rightarrow> string list \<times> nat" where
  "resolve_names env cnt objs names =
     (case names of
        NamesNone \<Rightarrow> find_var_names env cnt objs
      | NamesStr n \<Rightarrow> (if n \<noteq> [] then ([n], cnt) else find_var_names env cnt objs)
      | NamesList ns \<Rightarrow> (if ns \<noteq> [] then (ns, cnt) else find_var_names env cnt objs))"

text \<open>\<^verbatim>\<open>_preprocess_cad\<close>; \<open>None\<close> when \<^verbatim>\<open>get_shape\<close> raises.\<close>

definition preprocess_cad :: "'c env \<Rightarrow> 'c \<Rightarrow> 'c option" where
  "preprocess_cad env c =
     (case get_shape env c of
        None \<Rightarrow> None
      | Some sh \<Rightarrow>
          Some (if is_TopoDS_Shape env sh then rotate_x env sh
                else if is_TopLoc_Location env sh then location_y_up env sh
                else sh))"

text \<open>The loop of \<^verbatim>\<open>show\<close> that removes the previous events with one of the names.\<close>

fun delete_old :: "string list \<Rightarrow> 'c event list \<Rightarrow> 'c yacv \<Rightarrow> 'c yacv" where
  "delete_old names [] s = s"
| "delete_old names (old_event # rest) s =
     (if name old_event \<in> set names
      then delete_old names rest
             (s\<lparr>show_events := delete old_event (show_events s),
                build_events := del_key (build_events s) (name old_event)\<rparr>)
      else delete_old names rest s)"

text \<open>
  The loop of \<^verbatim>\<open>show\<close> that publishes one event per pair of \<^verbatim>\<open>zip(objs, names)\<close>. An
  exception of \<^verbatim>\<open>get_shape\<close> leaves the loop with the events published so far.
\<close>

definition preprocess :: "'c env \<Rightarrow> 'c payload \<Rightarrow> 'c payload option" where
  "preprocess env ob =
     (case ob of Bytes b \<Rightarrow> Some (Bytes b)
               | Cad c \<Rightarrow> map_option Cad (preprocess_cad env c))"

definition new_event :: "'c env \<Rightarrow> kwargs \<Rightarrow> 'c payload \<Rightarrow> string \<Rightarrow> 'c event" where
  "new_event env kw ob nm =
     \<lparr>name = nm, hash = hashcode env ob kw, is_remove = False, obj = ob, kwargs = kw\<rparr>"

fun publish_all :: "'c env \<Rightarrow> kwargs \<Rightarrow> ('c payload \<times> string) list \<Rightarrow> 'c yacv \<Rightarrow> unit outcome \<times> 'c yacv" where
  "publish_all env kw [] s = (Returns (), s)"
| "publish_all env kw ((ob, nm) # rest) s =
     (case preprocess env ob of
        None \<Rightarrow> (Raises UnsupportedObjectError, s)
      | Some ob' \<Rightarrow>
          publish_all env kw rest
            (s\<lparr>show_events := publish (new_event env kw ob' nm) (show_events s)\<rparr>))"

text \<open>A call of the logger.\<close>

definition log_to :: "level \<Rightarrow> string \<Rightarrow> 'c yacv \<Rightarrow> 'c yacv" where
  "log_to lvl msg s = s\<lparr>logged := logged s @ [(lvl, msg)]\<rparr>"

text \<open>
  The method \<^verbatim>\<open>show\<close>, named \<open>show_objs\<close> here (\<open>show\<close> is a keyword of the proof
  language): the names are resolved, their number is asserted, the other objects are
  cleared unless \<^verbatim>\<open>auto_clear\<close> is false, the previous events of the names are deleted and
  the new events are published.
\<close>

definition show_objs :: "'c env \<Rightarrow> 'c yacv \<Rightarrow> 'c payload list \<Rightarrow> names_arg \<Rightarrow> kwargs
    \<Rightarrow> unit outcome \<times> 'c yacv" where
  "show_objs env s objs names kw =
     (case resolve_names env (find_var_name_count s) objs names of
        (names', cnt) \<Rightarrow>
          (let s0 = s\<lparr>find_var_name_count := cnt\<rparr> in
           if length names' \<noteq> length objs
           then (Raises (AssertionError ''Number of names must match the number of objects''), s0)
           else
             (case (if truthy (dict_get kw ''auto_clear'' (PyBool True))
                    then clear s0 (Some names') else (Returns (), s0)) of
                (Returns u, s1) \<Rightarrow>
                  (case publish_all env kw (zip objs names')
                          (delete_old names' (buffer (show_events s1)) s1) of
                     (Returns u', s2) \<Rightarrow>
                       (Returns (), log_to INFO ''show %s took %.3f seconds'' s2)
                   | (Raises e, s2) \<Rightarrow> (Raises e, s2)
                   | (Blocks, s2) \<Rightarrow> (Blocks, s2))
              | (Raises e, s1) \<Rightarrow> (Raises e, s1)
              | (Blocks, s1) \<Rightarrow> (Blocks, s1))))"

section \<open>The build cache\<close>

text \<open>
  The block of \<^verbatim>\<open>export\<close> under \<^verbatim>\<open>if name not in self.build_events\<close>: the entry is
  created empty, then filled with the raw bytes or with the joined output of
  \<^verbatim>\<open>tessellate\<close>. An exception of \<^verbatim>\<open>tessellate\<close> leaves the empty entry behind.
\<close>

definition tessellate_event :: "'c env \<Rightarrow> 'c \<Rightarrow> 'c event \<Rightarrow> bytes list option" where
  "tessellate_event env c event =
     tessellate env c
       (dict_get (kwargs event) ''tolerance'' (PyFloat 0.1))
       (dict_get (kwargs event) ''angular_tolerance'' (PyFloat 0.1))
       (dict_get (kwargs event) ''faces'' (PyBool True))
       (dict_get (kwargs event) ''edges'' (PyBool True))
       (dict_get (kwargs event) ''vertices'' (PyBool True))"

definition build_object :: "'c env \<Rightarrow> 'c yacv \<Rightarrow> string \<Rightarrow> 'c event \<Rightarrow> unit outcome \<times> 'c yacv" where
  "build_object env s nm event =
     (let s1 = (log_to DEBUG ''Building object %s with hash %s'' s)
                 \<lparr>build_events := (build_events s)(nm \<mapsto> [])\<rparr> in
      case obj event of
        Bytes b \<Rightarrow> (Returns (), s1\<lparr>build_events := (build_events s1)(nm \<mapsto> publish b [])\<rparr>)
      | Cad c \<Rightarrow>
          (let s2 = s1\<lparr>tessellated := tessellated s1 @ [c]\<rparr> in
           case tessellate_event env c event of
             None \<Rightarrow> (Raises BuildFailure, s2)
           | Some glb_list_of_bytes \<Rightarrow>
               (Returns (),
                log_to INFO ''export(%s) took %.3f seconds, %d parts''
                  (s2\<lparr>build_events :=
                        (build_events s2)(nm \<mapsto> publish (concat glb_list_of_bytes) [])\<rparr>))))"

text \<open>
  \<^verbatim>\<open>YACV.export\<close>. The not-found outcome is the return value \<^verbatim>\<open>None\<close> together with the
  warning \<^verbatim>\<open>'Object %s not found'\<close>; a found object is \<open>Some\<close> of its bytes.
\<close>

definition export :: "'c env \<Rightarrow> 'c yacv \<Rightarrow> string \<Rightarrow> bytes option outcome \<times> 'c yacv" where
  "export env s nm =
     (let events = show_events_of s nm True in
      if length events = 0
      then (Returns None, log_to WARNING ''Object %s not found'' s)
      else
        (let event = last events in
         case (if nm \<notin> dom (build_events s) then build_object env s nm event
               else (Returns (), s)) of
           (Returns u, s1) \<Rightarrow>
             (case build_events s1 nm of
                None \<Rightarrow> (Raises (KeyError nm), s1)
              | Some items \<Rightarrow>
                  (case first_item items of
                     Returns b \<Rightarrow> (Returns (Some b), s1)
                   | Raises e \<Rightarrow> (Raises e, s1)
                   | Blocks \<Rightarrow> (Blocks, s1)))
         | (Raises e, s1) \<Rightarrow> (Raises e, s1)
         | (Blocks, s1) \<Rightarrow> (Blocks, s1)))"

text \<open>
  The lookup phase of \<^verbatim>\<open>Server.export\<close> in \<^verbatim>\<open>server.py\<close> (lines 232 to 246), whose
  events have no \<^verbatim>\<open>is_remove\<close> field: the scan over the stored events stops at the first
  one with the name, and \<^verbatim>\<open>HTTPNotFound\<close> is raised when there is none. The value returned
  is the object that the build phase goes on with.
\<close>

record 'c updates_api_data =
  data_name :: string
  data_hash :: string
  data_obj :: "'c option"
  data_kwargs :: "kwargs option"

fun find_data :: "string \<Rightarrow> 'c updates_api_data list \<Rightarrow> bool \<times> 'c option" where
  "find_data nm [] = (False, None)"
| "find_data nm (d # rest) = (if data_name d = nm then (True, data_obj d) else find_data nm rest)"

definition Server_export_lookup :: "'c updates_api_data list \<Rightarrow> string \<Rightarrow> 'c option outcome" where
  "Server_export_lookup events nm =
     (case find_data nm (buffer events) of
        (found, ob) \<Rightarrow>
          if \<not> found then Raises (HTTPNotFound (''No object named '' @ nm @ '' was previously shown''))
          else Returns ob)"

section \<open>The lifecycle\<close>

definition SIGINT :: int where "SIGINT = 2"
definition SIGTERM :: int where "SIGTERM = 15"

text \<open>
  \<^verbatim>\<open>_run_server\<close>, the body of the serving thread, up to the call of \<^verbatim>\<open>serve_forever\<close>.
  When the server cannot be created the thread ends without setting \<^verbatim>\<open>startup_complete\<close>.
\<close>

definition run_server :: "'c env \<Rightarrow> 'c yacv \<Rightarrow> 'c yacv" where
  "run_server env s =
     (let s1 = log_to INFO ''Starting server...'' s in
      case make_server env of
        None \<Rightarrow> s1
      | Some srv \<Rightarrow> (log_to INFO ''Serving at http://%s:%s'' (s1\<lparr>server := Some srv\<rparr>))
                      \<lparr>startup_complete := True\<rparr>)"

text \<open>
  \<^verbatim>\<open>start\<close>. The serving thread is run, up to its \<^verbatim>\<open>serve_forever\<close>, at the point where
  the caller waits for it; \<^verbatim>\<open>startup_complete.wait()\<close> has no timeout, so the caller
  returns only once the flag is set and waits forever when the thread never sets it.
\<close>

definition start :: "'c env \<Rightarrow> 'c yacv \<Rightarrow> unit outcome \<times> 'c yacv" where
  "start env s =
     (if server_thread s \<noteq> None
      then (Raises (AssertionError ''Server currently running, cannot start another one''), s)
      else if startup_complete s
      then (Raises (AssertionError ''Server already started''), s)
      else
        (let s1 = s\<lparr>server_thread := Some (Thread ''yacv_server'' True),
                     signal_handlers := signal_handlers s @ [SIGINT OR SIGTERM],
                     atexit_registered := atexit_registered s + 1\<rparr>;
             s2 = run_server env (log_to INFO ''Server started (requested)...'' s1)
         in if startup_complete s2
            then (Returns (), log_to INFO ''Server started (received)...'' s2)
            else (Blocks, s2)))"

text \<open>
  \<^verbatim>\<open>stop\<close>; \<open>args\<close> are the positional arguments (the signal number first, when the
  method runs as a signal handler). The two grace loops read clocks, an event and a lock
  and write no field, so they are the two log records around them. \<^verbatim>\<open>sys.exit(0)\<close> is
  the exception \<^verbatim>\<open>SystemExit\<close>.
\<close>

definition stop :: "'c yacv \<Rightarrow> int list \<Rightarrow> unit outcome \<times> 'c yacv" where
  "stop s args =
     (if server_thread s = None
      then (Returns (), log_to ERROR ''Cannot stop server because it is not running'' s)
      else
        (let s1 = log_to INFO ''Stopping server (waiting for no more frontend requests)...''
                    (log_to INFO ''Stopping server (waiting for at least one frontend request first, cancel with CTRL+C)...'' s)
         in case server s1 of
              None \<Rightarrow> (Raises (AttributeError ''shutdown''), s1)
            | Some srv \<Rightarrow>
                (let s2 = log_to INFO ''Stopping server (confirmed)...''
                            ((log_to INFO ''Stopping server (sent)...'' s1)\<lparr>server_thread := None\<rparr>)
                 in if length args \<ge> 1 \<and> (hd args = SIGINT \<or> hd args = SIGTERM)
                    then (Raises (SystemExit 0), s2)
                    else (Returns (), s2))))"

section \<open>Well-formed states\<close>

text \<open>A live event of a name: a show event that is not a tombstone.\<close>

definition live :: "string \<Rightarrow> 'c event \<Rightarrow> bool" where
  "live nm e \<longleftrightarrow> name e = nm \<and> \<not> is_remove e"

text \<open>
  The log never holds a live event and a tombstone of the same name, and every cache entry
  belongs to a name with a live event in the log.
\<close>

definition log_ok :: "'c event list \<Rightarrow> bool" where
  "log_ok items \<longleftrightarrow>
     (\<forall>a \<in> set items. \<forall>b \<in> set items. name a = name b \<longrightarrow> is_remove a = is_remove b)"

definition cache_ok :: "'c yacv \<Rightarrow> bool" where
  "cache_ok s \<longleftrightarrow> (\<forall>nm \<in> dom (build_events s). \<exists>e \<in> set (show_events s). live nm e)"

definition state_ok :: "'c yacv \<Rightarrow> bool" where
  "state_ok s \<longleftrightarrow> log_ok (show_events s) \<and> cache_ok s"

text \<open>The states that calls of the public methods reach from a fresh instance.\<close>

inductive reachable :: "'c env \<Rightarrow> 'c yacv \<Rightarrow> bool" for env :: "'c env" where
  r_init: "reachable env init"
| r_show: "reachable env s \<Longrightarrow> reachable env (snd (show_objs env s objs names kw))"
| r_remove: "reachable env s \<Longrightarrow> reachable env (snd (remove s nm))"
| r_clear: "reachable env s \<Longrightarrow> reachable env (snd (clear s except_names))"
| r_export: "reachable env s \<Longrightarrow> reachable env (snd (export env s nm))"
| r_start: "reachable env s \<Longrightarrow> reachable env (snd (start env s))"
| r_stop: "reachable env s \<Longrightarrow> reachable env (snd (stop s args))"

text \<open>
  The states reached when no \<^verbatim>\<open>show\<close> call gives the name \<open>k\<close> to more than one of its
  objects (a call with one object never does).
\<close>

inductive reachable_once :: "'c env \<Rightarrow> string \<Rightarrow> 'c yacv \<Rightarrow> bool"
  for env :: "'c env" and k :: string where
  o_init: "reachable_once env k init"
| o_show: "reachable_once env k s \<Longrightarrow>
           count_list (fst (resolve_names env (find_var_name_count s) objs names)) k \<le> 1 \<Longrightarrow>
           reachable_once env k (snd (show_objs env s objs names kw))"
| o_remove: "reachable_once env k s \<Longrightarrow> reachable_once env k (snd (remove s nm))"
| o_clear: "reachable_once env k s \<Longrightarrow> reachable_once env k (snd (clear s except_names))"
| o_export: "reachable_once env k s \<Longrightarrow> reachable_once env k (snd (export env s nm))"
| o_start: "reachable_once env k s \<Longrightarrow> reachable_once env k (snd (start env s))"
| o_stop: "reachable_once env k s \<Longrightarrow> reachable_once env k (snd (stop s args))"

text \<open>
  \<open>undisturbed env nm s s'\<close>: the state \<open>s'\<close> is reached from \<open>s\<close> by calls none of which
  shows or removes the name \<open>nm\<close>. Such a call is an export of any name, a \<^verbatim>\<open>remove\<close> of
  another name, a \<^verbatim>\<open>clear\<close> that excepts \<open>nm\<close> (any other \<^verbatim>\<open>clear\<close> calls
  \<^verbatim>\<open>remove(nm)\<close>), a \<^verbatim>\<open>show\<close> of other names with \<^verbatim>\<open>auto_clear\<close> false (with
  \<^verbatim>\<open>auto_clear\<close> on, \<^verbatim>\<open>show\<close> calls \<^verbatim>\<open>clear\<close> with its own names excepted, hence
  \<^verbatim>\<open>remove(nm)\<close>), \<^verbatim>\<open>start\<close> or \<^verbatim>\<open>stop\<close>.
\<close>

inductive undisturbed :: "'c env \<Rightarrow> string \<Rightarrow> 'c yacv \<Rightarrow> 'c yacv \<Rightarrow> bool"
  for env :: "'c env" and nm :: string and s :: "'c yacv" where
  u_refl: "undisturbed env nm s s"
| u_export: "undisturbed env nm s s' \<Longrightarrow> undisturbed env nm s (snd (export env s' k))"
| u_remove: "undisturbed env nm s s' \<Longrightarrow> k \<noteq> nm \<Longrightarrow> undisturbed env nm s (snd (remove s' k))"
| u_clear: "undisturbed env nm s s' \<Longrightarrow> nm \<in> set ns \<Longrightarrow>
            undisturbed env nm s (snd (clear s' (Some ns)))"
| u_show: "undisturbed env nm s s' \<Longrightarrow>
           nm \<notin> set (fst (resolve_names env (find_var_name_count s') objs names)) \<Longrightarrow>
           \<not> truthy (dict_get kw ''auto_clear'' (PyBool True)) \<Longrightarrow>
           undisturbed env nm s (snd (show_objs env s' objs names kw))"
| u_start: "undisturbed env nm s s' \<Longrightarrow> undisturbed env nm s (snd (start env s'))"
| u_stop: "undisturbed env nm s s' \<Longrightarrow> undisturbed env nm s (snd (stop s' args))"

text \<open>
  The state in which \<^verbatim>\<open>show\<close> deletes and publishes: the one left by its auto-clear step,
  which runs unless the option \<^verbatim>\<open>auto_clear\<close> is given and false.
\<close>

definition auto_cleared :: "'c yacv \<Rightarrow> string list \<Rightarrow> kwargs \<Rightarrow> 'c yacv" where
  "auto_cleared s names kw =
     (if truthy (dict_get kw ''auto_clear'' (PyBool True)) then snd (clear s (Some names)) else s)"

text \<open>A concrete environment and concrete states for the closed instances below.\<close>

definition env0 :: "nat env" where
  "env0 = \<lparr> get_shape = (\<lambda>c. if c = 0 then None else Some c),
            is_TopoDS_Shape = (\<lambda>c. True), rotate_x = (\<lambda>c. c),
            is_TopLoc_Location = (\<lambda>c. False), location_y_up = (\<lambda>c. c),
            hashcode = (\<lambda>p kw. case p of Bytes b \<Rightarrow> ''b'' | Cad c \<Rightarrow> ''c''),
            tessellate = (\<lambda>c t a f e v. if c = 1 then None else Some [[1, 2], [3]]),
            stack_var = (\<lambda>p. None), make_server = Some ThreadingHTTPServer \<rparr>"

definition s_A :: "nat yacv" where
  "s_A = snd (show_objs env0 init [Bytes [1, 2, 3]] (NamesStr ''A'') Map.empty)"

definition s_AX :: "nat yacv" where
  "s_AX = snd (export env0 s_A ''A'')"

definition s_AA :: "nat yacv" where
  "s_AA = snd (show_objs env0 init [Bytes [1], Bytes [2]] (NamesList [''A'', ''A'']) Map.empty)"

definition s_AB :: "nat yacv" where
  "s_AB = snd (show_objs env0 init [Bytes [1], Cad 2] (NamesList [''A'', ''B'']) Map.empty)"

section \<open>Lemmas on the log\<close>

lemma ev_eq_refl: "ev_eq a a" by (simp add: ev_eq_def)

lemma purge_Nil: "purge ev i [] = []"
  by (subst purge.simps) simp

lemma show_events_loop_live:
  "(\<forall>e \<in> set es. name e = nm \<longrightarrow> \<not> is_remove e) \<Longrightarrow>
   show_events_loop nm ar es res = res @ filter (\<lambda>e. name e = nm) es"
  by (induction es arbitrary: res) auto

lemma show_events_loop_dead:
  "(\<forall>e \<in> set es. name e = nm \<longrightarrow> is_remove e) \<Longrightarrow> show_events_loop nm True es [] = []"
  by (induction es) (auto simp: purge_Nil)

lemma show_events_of_no_live:
  "\<not> (\<exists>e \<in> set (show_events s). live nm e) \<Longrightarrow> show_events_of s nm True = []"
  unfolding show_events_of_def buffer_def
  by (rule show_events_loop_dead) (auto simp: live_def)

lemma log_ok_all_live:
  "log_ok items \<Longrightarrow> e \<in> set items \<Longrightarrow> live nm e \<Longrightarrow> x \<in> set items \<Longrightarrow> name x = nm
   \<Longrightarrow> \<not> is_remove x"
  unfolding log_ok_def live_def by blast

lemma filter_live_name:
  assumes "log_ok items" and "e \<in> set items" and "live nm e"
  shows "filter (live nm) items = filter (\<lambda>x. name x = nm) items"
proof (rule filter_cong [OF refl])
  fix x assume "x \<in> set items"
  from log_ok_all_live [OF assms this] assms(3) show "live nm x = (name x = nm)"
    by (auto simp: live_def)
qed

lemma show_events_of_ok:
  assumes "log_ok (show_events s)"
  shows "show_events_of s nm True = filter (live nm) (show_events s)"
proof (cases "\<exists>e \<in> set (show_events s). live nm e")
  case True
  then obtain e where e: "e \<in> set (show_events s)" "live nm e" by blast
  have all: "\<forall>x \<in> set (show_events s). name x = nm \<longrightarrow> \<not> is_remove x"
    using log_ok_all_live [OF assms e] by blast
  show ?thesis
    unfolding show_events_of_def buffer_def
    using show_events_loop_live [OF all, of True "[]"] filter_live_name [OF assms e]
    by simp
next
  case False
  then have "filter (live nm) (show_events s) = []"
    by (auto simp: filter_empty_conv)
  with show_events_of_no_live [OF False] show ?thesis by simp
qed

lemma foldl_delete_skip:
  "\<forall>e \<in> set es. \<not> ev_eq x e \<Longrightarrow>
   foldl (\<lambda>items old. delete old items) (x # xs) es = x # foldl (\<lambda>items old. delete old items) xs es"
  by (induction es arbitrary: xs) (auto simp: delete_def)

lemma foldl_delete_filter:
  assumes resp: "\<And>a b. ev_eq a b \<Longrightarrow> P a = P b"
  shows "foldl (\<lambda>items old. delete old items) xs (filter P xs) = filter (\<lambda>e. \<not> P e) xs"
proof (induction xs)
  case Nil
  show ?case by simp
next
  case (Cons x xs)
  show ?case
  proof (cases "P x")
    case True
    then show ?thesis using Cons by (simp add: delete_def ev_eq_refl)
  next
    case False
    then have "\<forall>e \<in> set (filter P xs). \<not> ev_eq x e" using resp by auto
    from foldl_delete_skip [OF this] False Cons show ?thesis by simp
  qed
qed

lemma ev_eq_live: "ev_eq a b \<Longrightarrow> live nm a = live nm b"
  by (auto simp: ev_eq_def live_def)

lemma del_key_eq: "del_key m k = m(k := None)"
  by (auto simp: del_key_def fun_eq_iff domIff)

lemma filter_not_live_name:
  assumes "log_ok items" and "e \<in> set items" and "live nm e"
  shows "filter (\<lambda>x. \<not> live nm x) items = filter (\<lambda>x. name x \<noteq> nm) items"
proof (rule filter_cong [OF refl])
  fix x assume "x \<in> set items"
  from log_ok_all_live [OF assms this] show "(\<not> live nm x) = (name x \<noteq> nm)"
    by (auto simp: live_def)
qed


lemma remove_ok:
  assumes "log_ok (show_events s)"
  shows "remove s nm =
     (Returns (),
      if filter (live nm) (show_events s) = [] then s
      else s\<lparr>show_events := filter (\<lambda>e. name e \<noteq> nm) (show_events s)
                @ [(last (filter (live nm) (show_events s)))\<lparr>is_remove := True\<rparr>],
              build_events := (build_events s)(nm := None)\<rparr>)"
proof (cases "filter (live nm) (show_events s) = []")
  case True
  then show ?thesis by (simp add: remove_def show_events_of_ok [OF assms])
next
  case False
  then obtain e where e: "e \<in> set (show_events s)" "live nm e"
    by (auto simp: filter_empty_conv)
  have fold: "foldl (\<lambda>items old. delete old items) (show_events s) (filter (live nm) (show_events s))
      = filter (\<lambda>e. name e \<noteq> nm) (show_events s)"
    using foldl_delete_filter [of "live nm" "show_events s", OF ev_eq_live]
      filter_not_live_name [OF assms e] by simp
  show ?thesis
    unfolding remove_def show_events_of_ok [OF assms] Let_def fold del_key_eq publish_def
    using False by simp
qed

lemma remove_fst: "fst (remove s nm) = Returns ()"
  by (simp add: remove_def Let_def)

lemma filter_filter_absorb: "(\<And>x. Q x \<Longrightarrow> P x) \<Longrightarrow> filter Q (filter P xs) = filter Q xs"
  by (induction xs) auto

lemma filter_filter_excl: "(\<And>x. Q x \<Longrightarrow> \<not> P x) \<Longrightarrow> filter Q (filter P xs) = []"
  by (induction xs) auto

lemma filter_live_other:
  "filter (live k) (filter (\<lambda>e. name e \<noteq> nm) xs) = (if k = nm then [] else filter (live k) xs)"
proof (cases "k = nm")
  case True
  have "filter (live nm) (filter (\<lambda>e. name e \<noteq> nm) xs) = []"
    by (rule filter_filter_excl) (simp add: live_def)
  with True show ?thesis by simp
next
  case False
  have "filter (live k) (filter (\<lambda>e. name e \<noteq> nm) xs) = filter (live k) xs"
    by (rule filter_filter_absorb) (use False in \<open>simp add: live_def\<close>)
  with False show ?thesis by simp
qed

lemma lives_after_remove:
  assumes "log_ok (show_events s)"
  shows "filter (live k) (show_events (snd (remove s nm)))
       = (if k = nm then [] else filter (live k) (show_events s))"
  by (simp add: remove_ok [OF assms] filter_live_other live_def del: filter_filter)

lemma filter_names_other:
  "nm \<notin> A \<Longrightarrow> filter (\<lambda>e. name e \<in> A) (filter (\<lambda>e. name e \<noteq> nm) xs) = filter (\<lambda>e. name e \<in> A) xs"
  by (rule filter_filter_absorb) auto

lemma last_filter_live: "filter (live nm) xs \<noteq> [] \<Longrightarrow> live nm (last (filter (live nm) xs))"
  using last_in_set [of "filter (live nm) xs"] by simp

lemma names_after_remove:
  assumes "log_ok (show_events s)" and "nm \<notin> A"
  shows "filter (\<lambda>e. name e \<in> A) (show_events (snd (remove s nm)))
       = filter (\<lambda>e. name e \<in> A) (show_events s)"
proof (cases "filter (live nm) (show_events s) = []")
  case True
  then show ?thesis by (simp add: remove_ok [OF assms(1)])
next
  case False
  from last_filter_live [OF False] have "name (last (filter (live nm) (show_events s))) = nm"
    by (simp add: live_def)
  with False assms(2) show ?thesis
    by (simp add: remove_ok [OF assms(1)] filter_names_other del: filter_filter)
qed

lemma cache_after_remove:
  assumes "state_ok s"
  shows "build_events (snd (remove s nm)) = (build_events s)(nm := None)"
proof (cases "filter (live nm) (show_events s) = []")
  case True
  then have "\<not> (\<exists>e \<in> set (show_events s). live nm e)"
    by (simp add: filter_empty_conv)
  with assms have "build_events s nm = None"
    unfolding state_ok_def cache_ok_def by blast
  then have "(build_events s)(nm := None) = build_events s"
    by (simp add: fun_upd_idem_iff)
  with True assms show ?thesis
    by (simp add: remove_ok state_ok_def)
next
  case False
  with assms show ?thesis by (simp add: remove_ok state_ok_def)
qed

lemma log_ok_filter: "log_ok xs \<Longrightarrow> log_ok (filter P xs)"
  unfolding log_ok_def by simp

lemma log_ok_snoc:
  "log_ok (xs @ [t]) \<longleftrightarrow> log_ok xs \<and> (\<forall>a \<in> set xs. name a = name t \<longrightarrow> is_remove a = is_remove t)"
  unfolding log_ok_def by auto

lemma log_ok_after_remove:
  assumes "log_ok (show_events s)"
  shows "log_ok (show_events (snd (remove s nm)))"
proof (cases "filter (live nm) (show_events s) = []")
  case True
  with assms show ?thesis by (simp add: remove_ok)
next
  case False
  from last_filter_live [OF False] have "name (last (filter (live nm) (show_events s))) = nm"
    by (simp add: live_def)
  with False assms show ?thesis
    by (simp add: remove_ok log_ok_snoc log_ok_filter)
qed

lemma live_iff_filter: "(\<exists>e \<in> set xs. live nm e) \<longleftrightarrow> filter (live nm) xs \<noteq> []"
  by (simp add: filter_empty_conv)

lemma state_ok_after_remove:
  assumes "state_ok s"
  shows "state_ok (snd (remove s nm))"
proof -
  have l: "log_ok (show_events s)" using assms by (simp add: state_ok_def)
  have "cache_ok (snd (remove s nm))"
    unfolding cache_ok_def
  proof
    fix k assume "k \<in> dom (build_events (snd (remove s nm)))"
    then have k: "k \<noteq> nm" "k \<in> dom (build_events s)"
      by (auto simp: cache_after_remove [OF assms] split: if_splits)
    with assms have "filter (live k) (show_events s) \<noteq> []"
      unfolding state_ok_def cache_ok_def live_iff_filter by blast
    with k show "\<exists>e \<in> set (show_events (snd (remove s nm))). live k e"
      unfolding live_iff_filter by (simp add: lives_after_remove [OF l])
  qed
  with log_ok_after_remove [OF l] show ?thesis by (simp add: state_ok_def)
qed

lemma clear_loop_fold:
  "clear_loop ex es s =
     (Returns (), foldl (\<lambda>s nm. snd (remove s nm)) s (filter (\<lambda>nm. nm \<notin> set ex) (map name es)))"
proof (induction es arbitrary: s)
  case Nil
  show ?case by simp
next
  case (Cons e es)
  show ?case
  proof (cases "name e \<in> set ex")
    case True
    with Cons show ?thesis by simp
  next
    case False
    have "clear_loop ex (e # es) s = clear_loop ex es (snd (remove s (name e)))"
      using False remove_fst [of s "name e"] by (cases "remove s (name e)") auto
    with False Cons show ?thesis by simp
  qed
qed

lemma removes_state_ok:
  "state_ok s \<Longrightarrow> state_ok (foldl (\<lambda>s nm. snd (remove s nm)) s ns)"
  by (induction ns arbitrary: s) (simp_all add: state_ok_after_remove)

lemma removes_lives:
  "state_ok s \<Longrightarrow>
   filter (live k) (show_events (foldl (\<lambda>s nm. snd (remove s nm)) s ns))
     = (if k \<in> set ns then [] else filter (live k) (show_events s))"
proof (induction ns arbitrary: s)
  case Nil
  show ?case by simp
next
  case (Cons n ns)
  have l: "log_ok (show_events s)" using Cons.prems by (simp add: state_ok_def)
  from Cons.IH [OF state_ok_after_remove [OF Cons.prems], of n]
  show ?case by (simp add: lives_after_remove [OF l])
qed

lemma removes_names:
  "state_ok s \<Longrightarrow> set ns \<inter> A = {} \<Longrightarrow>
   filter (\<lambda>e. name e \<in> A) (show_events (foldl (\<lambda>s nm. snd (remove s nm)) s ns))
     = filter (\<lambda>e. name e \<in> A) (show_events s)"
proof (induction ns arbitrary: s)
  case Nil
  show ?case by simp
next
  case (Cons n ns)
  have l: "log_ok (show_events s)" using Cons.prems by (simp add: state_ok_def)
  have n: "n \<notin> A" and ns: "set ns \<inter> A = {}" using Cons.prems(2) by auto
  from Cons.IH [OF state_ok_after_remove [OF Cons.prems(1)] ns, of n]
  show ?case by (simp add: names_after_remove [OF l n])
qed

lemma removes_cache:
  "state_ok s \<Longrightarrow>
   build_events (foldl (\<lambda>s nm. snd (remove s nm)) s ns)
     = (\<lambda>k. if k \<in> set ns then None else build_events s k)"
proof (induction ns arbitrary: s)
  case Nil
  show ?case by simp
next
  case (Cons n ns)
  from Cons.IH [OF state_ok_after_remove [OF Cons.prems], of n]
  show ?case by (auto simp: cache_after_remove [OF Cons.prems] fun_eq_iff)
qed

lemma delete_old_eq:
  "(\<forall>e \<in> set pre. name e \<notin> set names) \<Longrightarrow> show_events s = pre @ es \<Longrightarrow> build_events s = be \<Longrightarrow>
   delete_old names es s =
     s\<lparr>show_events := pre @ filter (\<lambda>e. name e \<notin> set names) es,
       build_events := (\<lambda>k. if k \<in> set names \<and> k \<in> name ` set es then None else be k)\<rparr>"
proof (induction es arbitrary: s pre be)
  case Nil
  then show ?case by simp
next
  case (Cons e es)
  show ?case
  proof (cases "name e \<in> set names")
    case True
    have "\<forall>x \<in> set pre. \<not> ev_eq x e"
      using Cons.prems(1) True by (auto simp: ev_eq_def)
    then have d: "delete e (pre @ e # es) = pre @ es"
      unfolding delete_def by (induction pre) (simp_all add: ev_eq_refl)
    let ?s1 = "s\<lparr>show_events := pre @ es, build_events := be(name e := None)\<rparr>"
    have fe: "(\<lambda>k. if k \<in> set names \<and> k \<in> name ` set es then None else (be(name e := None)) k)
        = (\<lambda>k. if k \<in> set names \<and> k \<in> name ` set (e # es) then None else be k)"
      using True by (auto simp: fun_eq_iff)
    have "delete_old names (e # es) s = delete_old names es ?s1"
      using True Cons.prems(2,3) d by (simp add: del_key_eq)
    also have "\<dots> = ?s1\<lparr>show_events := pre @ filter (\<lambda>e. name e \<notin> set names) es,
        build_events := (\<lambda>k. if k \<in> set names \<and> k \<in> name ` set es then None
                               else (be(name e := None)) k)\<rparr>"
      by (rule Cons.IH [OF Cons.prems(1)]) simp_all
    also have "\<dots> = s\<lparr>show_events := pre @ filter (\<lambda>e. name e \<notin> set names) (e # es),
       build_events := (\<lambda>k. if k \<in> set names \<and> k \<in> name ` set (e # es) then None else be k)\<rparr>"
      unfolding fe using True by simp
    finally show ?thesis .
  next
    case False
    have p: "\<forall>x \<in> set (pre @ [e]). name x \<notin> set names"
      using Cons.prems(1) False by simp
    have fe: "(\<lambda>k. if k \<in> set names \<and> k \<in> name ` set es then None else be k)
        = (\<lambda>k. if k \<in> set names \<and> k \<in> name ` set (e # es) then None else be k)"
      using False by (auto simp: fun_eq_iff)
    have "delete_old names (e # es) s = delete_old names es s"
      using False by simp
    also have "\<dots> = s\<lparr>show_events := (pre @ [e]) @ filter (\<lambda>e. name e \<notin> set names) es,
       build_events := (\<lambda>k. if k \<in> set names \<and> k \<in> name ` set es then None else be k)\<rparr>"
      by (rule Cons.IH [OF p]) (simp_all add: Cons.prems)
    also have "\<dots> = s\<lparr>show_events := pre @ filter (\<lambda>e. name e \<notin> set names) (e # es),
       build_events := (\<lambda>k. if k \<in> set names \<and> k \<in> name ` set (e # es) then None else be k)\<rparr>"
      unfolding fe using False by simp
    finally show ?thesis .
  qed
qed

lemma publish_all_ok:
  "(\<forall>p \<in> set ps. preprocess env (fst p) \<noteq> None) \<Longrightarrow>
   publish_all env kw ps s =
     (Returns (), s\<lparr>show_events := show_events s
         @ map (\<lambda>p. new_event env kw (the (preprocess env (fst p))) (snd p)) ps\<rparr>)"
proof (induction ps arbitrary: s)
  case Nil
  show ?case by simp
next
  case (Cons p ps)
  obtain ob nm where p: "p = (ob, nm)" by (cases p)
  from Cons.prems p obtain ob' where ob': "preprocess env ob = Some ob'" by auto
  have rest: "\<forall>p \<in> set ps. preprocess env (fst p) \<noteq> None" using Cons.prems by simp
  show ?case
    by (simp add: p ob' Cons.IH [OF rest] publish_def)
qed

lemma publish_all_any:
  "\<exists>evs. snd (publish_all env kw ps s) = s\<lparr>show_events := show_events s @ evs\<rparr>
       \<and> (\<forall>e \<in> set evs. \<not> is_remove e \<and> name e \<in> snd ` set ps)"
proof (induction ps arbitrary: s)
  case Nil
  show ?case by simp
next
  case (Cons p ps)
  obtain ob nm where p: "p = (ob, nm)" by (cases p)
  show ?case
  proof (cases "preprocess env ob")
    case None
    then show ?thesis by (intro exI [of _ "[]"]) (simp add: p)
  next
    case (Some ob')
    let ?s1 = "s\<lparr>show_events := publish (new_event env kw ob' nm) (show_events s)\<rparr>"
    from Cons.IH [of ?s1] obtain evs where
      evs: "snd (publish_all env kw ps ?s1) = ?s1\<lparr>show_events := show_events ?s1 @ evs\<rparr>"
        "\<forall>e \<in> set evs. \<not> is_remove e \<and> name e \<in> snd ` set ps"
      by blast
    have "snd (publish_all env kw (p # ps) s) = s\<lparr>show_events := show_events s @ (new_event env kw ob' nm # evs)\<rparr>"
      using evs(1) by (simp add: p Some publish_def)
    moreover have "\<forall>e \<in> set (new_event env kw ob' nm # evs). \<not> is_remove e \<and> name e \<in> snd ` set (p # ps)"
      using evs(2) by (auto simp: p new_event_def)
    ultimately show ?thesis by blast
  qed
qed

lemma state_ok_cong:
  "show_events s' = show_events s \<Longrightarrow> build_events s' = build_events s \<Longrightarrow> state_ok s' = state_ok s"
  by (simp add: state_ok_def cache_ok_def)

lemma clear_eq:
  "clear s ex = (Returns (), foldl (\<lambda>s nm. snd (remove s nm)) s
      (filter (\<lambda>nm. nm \<notin> set (case ex of None \<Rightarrow> [] | Some ns \<Rightarrow> ns)) (map name (show_events s))))"
  by (simp add: clear_def buffer_def clear_loop_fold)

lemma state_ok_after_clear: "state_ok s \<Longrightarrow> state_ok (snd (clear s ex))"
  by (simp add: clear_eq removes_state_ok)

lemma log_ok_show_core:
  assumes "log_ok xs" and "\<forall>e \<in> set evs. \<not> is_remove e \<and> name e \<in> set names"
  shows "log_ok (filter (\<lambda>e. name e \<notin> set names) xs @ evs)"
  unfolding log_ok_def
proof (intro ballI impI)
  fix a b
  assume a: "a \<in> set (filter (\<lambda>e. name e \<notin> set names) xs @ evs)"
     and b: "b \<in> set (filter (\<lambda>e. name e \<notin> set names) xs @ evs)"
     and n: "name a = name b"
  show "is_remove a = is_remove b"
  proof (cases "a \<in> set evs")
    case True
    with assms(2) n have "name b \<in> set names" by auto
    with b have "b \<in> set evs" by auto
    with True assms(2) show ?thesis by auto
  next
    case False
    with a have a': "a \<in> set xs" "name a \<notin> set names" by auto
    with n assms(2) have "b \<notin> set evs" by auto
    with b have "b \<in> set xs" by auto
    with a' n assms(1) show ?thesis unfolding log_ok_def by blast
  qed
qed

lemma state_ok_show_core:
  assumes ok: "state_ok s1" and evs: "\<forall>e \<in> set evs. \<not> is_remove e \<and> name e \<in> set names"
    and se: "show_events s2 = filter (\<lambda>e. name e \<notin> set names) (show_events s1) @ evs"
    and be: "build_events s2 = (\<lambda>k. if k \<in> set names \<and> k \<in> name ` set (show_events s1) then None
                                   else build_events s1 k)"
  shows "state_ok s2"
proof -
  have "log_ok (show_events s2)"
    unfolding se using ok evs by (intro log_ok_show_core) (simp_all add: state_ok_def)
  moreover have "cache_ok s2"
    unfolding cache_ok_def
  proof
    fix k assume "k \<in> dom (build_events s2)"
    then have k: "k \<in> dom (build_events s1)" "\<not> (k \<in> set names \<and> k \<in> name ` set (show_events s1))"
      unfolding be by (auto split: if_splits)
    from k(1) ok obtain e where e: "e \<in> set (show_events s1)" "live k e"
      unfolding state_ok_def cache_ok_def by blast
    then have "name e = k" by (simp add: live_def)
    with e k(2) have "name e \<notin> set names" by auto
    with e show "\<exists>e \<in> set (show_events s2). live k e"
      unfolding se by auto
  qed
  ultimately show ?thesis by (simp add: state_ok_def)
qed

lemma delete_old_buffer:
  "delete_old names (show_events s) s =
     s\<lparr>show_events := filter (\<lambda>e. name e \<notin> set names) (show_events s),
       build_events := (\<lambda>k. if k \<in> set names \<and> k \<in> name ` set (show_events s) then None
                             else build_events s k)\<rparr>"
  using delete_old_eq [of "[]" names s "show_events s" "build_events s"] by simp

lemma state_ok_after_show:
  assumes "state_ok s"
  shows "state_ok (snd (show_objs env s objs names kw))"
proof -
  obtain names' cnt where r: "resolve_names env (find_var_name_count s) objs names = (names', cnt)"
    by (cases "resolve_names env (find_var_name_count s) objs names")
  let ?s0 = "s\<lparr>find_var_name_count := cnt\<rparr>"
  have ok0: "state_ok ?s0" using assms by (simp add: state_ok_cong [of ?s0 s])
  show ?thesis
  proof (cases "length names' \<noteq> length objs")
    case True
    with r ok0 show ?thesis by (simp add: show_objs_def)
  next
    case False
    define s1 where "s1 = (if truthy (dict_get kw ''auto_clear'' (PyBool True))
                           then snd (clear ?s0 (Some names')) else ?s0)"
    have c: "(if truthy (dict_get kw ''auto_clear'' (PyBool True))
              then clear ?s0 (Some names') else (Returns (), ?s0)) = (Returns (), s1)"
      by (simp add: s1_def clear_eq)
    have ok1: "state_ok s1" using ok0 by (simp add: s1_def state_ok_after_clear)
    define s2 where "s2 = delete_old names' (show_events s1) s1"
    have s2: "show_events s2 = filter (\<lambda>e. name e \<notin> set names') (show_events s1)"
      "build_events s2 = (\<lambda>k. if k \<in> set names' \<and> k \<in> name ` set (show_events s1) then None
                                 else build_events s1 k)"
      by (simp_all add: s2_def delete_old_buffer)
    obtain evs where evs:
      "snd (publish_all env kw (zip objs names') s2) = s2\<lparr>show_events := show_events s2 @ evs\<rparr>"
      "\<forall>e \<in> set evs. \<not> is_remove e \<and> name e \<in> snd ` set (zip objs names')"
      using publish_all_any [of env kw "zip objs names'" s2] by blast
    have "snd ` set (zip objs names') \<subseteq> set names'"
      by (auto dest: set_zip_rightD)
    with evs(2) have evs': "\<forall>e \<in> set evs. \<not> is_remove e \<and> name e \<in> set names'"
      by blast
    define s3 where "s3 = snd (publish_all env kw (zip objs names') s2)"
    have ok3: "state_ok s3"
      by (rule state_ok_show_core [OF ok1 evs']) (simp_all add: s3_def evs(1) s2)
    have "state_ok (snd (show_objs env s objs names kw)) = state_ok s3"
      using False r c
      by (cases "publish_all env kw (zip objs names') s2"; cases "fst (publish_all env kw (zip objs names') s2)")
         (simp_all add: show_objs_def buffer_def log_to_def s3_def s2_def [symmetric]
            state_ok_cong [of "_\<lparr>logged := _\<rparr>"])
    with ok3 show ?thesis by simp
  qed
qed

lemma build_object_shape:
  "show_events (snd (build_object env s nm ev)) = show_events s \<and>
   dom (build_events (snd (build_object env s nm ev))) = insert nm (dom (build_events s))"
  by (cases "obj ev")
     (auto simp: build_object_def Let_def log_to_def split: option.splits)

lemma export_shape:
  "show_events (snd (export env s nm)) = show_events s \<and>
   (dom (build_events (snd (export env s nm))) = dom (build_events s) \<or>
    show_events_of s nm True \<noteq> [] \<and>
    dom (build_events (snd (export env s nm))) = insert nm (dom (build_events s)))"
proof (cases "show_events_of s nm True = []")
  case True
  then show ?thesis by (simp add: export_def log_to_def)
next
  case False
  show ?thesis
  proof (cases "nm \<in> dom (build_events s)")
    case True
    with False show ?thesis
      by (auto simp: export_def Let_def first_item_def split: option.splits list.splits)
  next
    case nin: False
    obtain r s1 where b: "build_object env s nm (last (show_events_of s nm True)) = (r, s1)"
      by (cases "build_object env s nm (last (show_events_of s nm True))")
    from build_object_shape [of env s nm "last (show_events_of s nm True)"] b
    have sh: "show_events s1 = show_events s" "dom (build_events s1) = insert nm (dom (build_events s))"
      by simp_all
    have "snd (export env s nm) = s1"
      using False nin b
      by (cases r) (auto simp: export_def Let_def first_item_def split: option.splits list.splits)
    with sh False show ?thesis by simp
  qed
qed

lemma state_ok_after_export:
  assumes "state_ok s"
  shows "state_ok (snd (export env s nm))"
proof -
  let ?s' = "snd (export env s nm)"
  have l: "log_ok (show_events s)" using assms by (simp add: state_ok_def)
  have se: "show_events ?s' = show_events s" using export_shape [of env s nm] by simp
  have "cache_ok ?s'"
    unfolding cache_ok_def se
  proof
    fix k assume k: "k \<in> dom (build_events ?s')"
    show "\<exists>e \<in> set (show_events s). live k e"
    proof (cases "k \<in> dom (build_events s)")
      case True
      with assms show ?thesis unfolding state_ok_def cache_ok_def by blast
    next
      case False
      with k export_shape [of env s nm] have "k = nm" "show_events_of s nm True \<noteq> []"
        by auto
      then show ?thesis by (simp add: show_events_of_ok [OF l] live_iff_filter)
    qed
  qed
  with l se show ?thesis by (simp add: state_ok_def)
qed

lemma state_ok_after_start: "state_ok s \<Longrightarrow> state_ok (snd (start env s))"
  by (simp add: start_def run_server_def log_to_def Let_def
        state_ok_def cache_ok_def split: option.splits)

lemma state_ok_after_stop: "state_ok s \<Longrightarrow> state_ok (snd (stop s args))"
  by (simp add: stop_def log_to_def Let_def state_ok_def cache_ok_def split: option.splits)

lemma state_ok_init: "state_ok init"
  by (simp add: state_ok_def log_ok_def cache_ok_def init_def)

lemma reachable_state_ok: "reachable env s \<Longrightarrow> state_ok s"
  by (induction rule: reachable.induct)
     (simp_all add: state_ok_init state_ok_after_show state_ok_after_remove state_ok_after_clear
        state_ok_after_export state_ok_after_start state_ok_after_stop)

lemma cache_none_without_event:
  assumes "state_ok s" and "k \<notin> name ` set (show_events s)"
  shows "build_events s k = None"
proof (rule ccontr)
  assume "build_events s k \<noteq> None"
  then have "k \<in> dom (build_events s)" by auto
  with assms(1) obtain e where "e \<in> set (show_events s)" "live k e"
    unfolding state_ok_def cache_ok_def by blast
  with assms(2) show False by (auto simp: live_def)
qed

lemma show_objs_ok:
  assumes ok: "state_ok s"
    and r: "resolve_names env (find_var_name_count s) objs names = (ns, cnt)"
    and len: "length ns = length objs"
    and pre: "\<forall>ob \<in> set objs. preprocess env ob \<noteq> None"
  shows "show_objs env s objs names kw =
     (Returns (),
      log_to INFO ''show %s took %.3f seconds''
        ((auto_cleared (s\<lparr>find_var_name_count := cnt\<rparr>) ns kw)
           \<lparr>show_events :=
              filter (\<lambda>e. name e \<notin> set ns)
                (show_events (auto_cleared (s\<lparr>find_var_name_count := cnt\<rparr>) ns kw))
              @ map (\<lambda>p. new_event env kw (the (preprocess env (fst p))) (snd p)) (zip objs ns),
            build_events := (\<lambda>k. if k \<in> set ns then None
               else build_events (auto_cleared (s\<lparr>find_var_name_count := cnt\<rparr>) ns kw) k)\<rparr>))"
proof -
  let ?s0 = "s\<lparr>find_var_name_count := cnt\<rparr>"
  define s1 where "s1 = auto_cleared ?s0 ns kw"
  have ok0: "state_ok ?s0" using ok by (simp add: state_ok_cong [of ?s0 s])
  have c: "(if truthy (dict_get kw ''auto_clear'' (PyBool True))
            then clear ?s0 (Some ns) else (Returns (), ?s0)) = (Returns (), s1)"
    by (simp add: s1_def auto_cleared_def clear_eq)
  have ok1: "state_ok s1" using ok0 by (simp add: s1_def auto_cleared_def state_ok_after_clear)
  have fe: "(\<lambda>k. if k \<in> set ns \<and> k \<in> name ` set (show_events s1) then None else build_events s1 k)
      = (\<lambda>k. if k \<in> set ns then None else build_events s1 k)"
    using cache_none_without_event [OF ok1] by (auto simp: fun_eq_iff)
  define s2 where "s2 = delete_old ns (show_events s1) s1"
  have s2: "s2 = s1\<lparr>show_events := filter (\<lambda>e. name e \<notin> set ns) (show_events s1),
                     build_events := (\<lambda>k. if k \<in> set ns then None else build_events s1 k)\<rparr>"
    unfolding s2_def delete_old_buffer fe ..
  have p: "\<forall>p \<in> set (zip objs ns). preprocess env (fst p) \<noteq> None"
    using pre by (auto dest: set_zip_leftD)
  have "show_objs env s objs names kw
      = (Returns (), log_to INFO ''show %s took %.3f seconds''
           (s2\<lparr>show_events := show_events s2
               @ map (\<lambda>p. new_event env kw (the (preprocess env (fst p))) (snd p)) (zip objs ns)\<rparr>))"
    using r len c
    by (simp add: show_objs_def buffer_def s2_def [symmetric] publish_all_ok [OF p])
  then show ?thesis
    unfolding s2 s1_def by (simp add: log_to_def)
qed

lemma set_new_events_names:
  "name ` set (map (\<lambda>p. new_event env kw (g (fst p)) (snd p)) (zip objs ns)) \<subseteq> set ns"
  by (auto simp: new_event_def dest: set_zip_rightD)

lemma filter_new_events_none:
  "k \<notin> set ns \<Longrightarrow>
   filter (\<lambda>e. name e = k) (map (\<lambda>p. new_event env kw (g (fst p)) (snd p)) (zip objs ns)) = []"
  using set_new_events_names [of env kw g objs ns] by (auto simp: filter_empty_conv)

lemma tessellated_remove: "tessellated (snd (remove s nm)) = tessellated s"
  by (simp add: remove_def Let_def)

lemma tessellated_removes:
  "tessellated (foldl (\<lambda>s nm. snd (remove s nm)) s ns) = tessellated s"
  by (induction ns arbitrary: s) (simp_all add: tessellated_remove)

lemma tessellated_auto_cleared: "tessellated (auto_cleared s ns kw) = tessellated s"
  by (simp add: auto_cleared_def clear_eq tessellated_removes)

lemma names_loop_tomb:
  "(\<forall>e \<in> set pre. name e \<noteq> name t) \<Longrightarrow> name t \<notin> set res \<Longrightarrow> is_remove t \<Longrightarrow>
   names_loop True (pre @ [t]) res = Raises (ValueError ''list.remove(x): x not in list'')"
proof (induction pre arbitrary: res)
  case Nil
  then show ?case by simp
next
  case (Cons e pre)
  have rest: "\<forall>e \<in> set pre. name e \<noteq> name t" using Cons.prems(1) by simp
  have ne: "name e \<noteq> name t" using Cons.prems(1) by simp
  show ?case
  proof (cases "is_remove e")
    case False
    have "name t \<notin> set (res @ [name e])" using Cons.prems(2) ne by simp
    from Cons.IH [OF rest this Cons.prems(3)] False show ?thesis by simp
  next
    case True
    show ?thesis
    proof (cases "name e \<in> set res")
      case False
      with True show ?thesis by simp
    next
      case in_res: True
      have "name t \<notin> set (remove1 (name e) res)"
        using Cons.prems(2) by (auto dest: notin_set_remove1)
      from Cons.IH [OF rest this Cons.prems(3)] True in_res show ?thesis by simp
    qed
  qed
qed

lemma export_cached:
  "show_events_of s nm True \<noteq> [] \<Longrightarrow> build_events s nm = Some (x # xs) \<Longrightarrow>
   export env s nm = (Returns (Some x), s)"
  by (simp add: export_def first_item_def dom_def)

lemma export_fresh_bytes:
  "show_events_of s nm True \<noteq> [] \<Longrightarrow> nm \<notin> dom (build_events s) \<Longrightarrow>
   obj (last (show_events_of s nm True)) = Bytes b \<Longrightarrow>
   export env s nm =
     (Returns (Some b),
      (log_to DEBUG ''Building object %s with hash %s'' s)\<lparr>build_events := (build_events s)(nm \<mapsto> [b])\<rparr>)"
  by (simp add: export_def build_object_def first_item_def publish_def log_to_def)

lemma export_fresh_cad:
  "show_events_of s nm True \<noteq> [] \<Longrightarrow> nm \<notin> dom (build_events s) \<Longrightarrow>
   obj (last (show_events_of s nm True)) = Cad c \<Longrightarrow>
   tessellate_event env c (last (show_events_of s nm True)) = Some parts \<Longrightarrow>
   export env s nm =
     (Returns (Some (concat parts)),
      log_to INFO ''export(%s) took %.3f seconds, %d parts''
        ((log_to DEBUG ''Building object %s with hash %s'' s)
           \<lparr>build_events := (build_events s)(nm \<mapsto> [concat parts]),
            tessellated := tessellated s @ [c]\<rparr>))"
  by (simp add: export_def build_object_def first_item_def publish_def log_to_def)

lemma lives_auto_cleared:
  "state_ok s \<Longrightarrow>
   length (filter (live k) (show_events (auto_cleared s ns kw))) \<le> length (filter (live k) (show_events s))"
  by (simp add: auto_cleared_def clear_eq removes_lives)

lemma tessellated_show_objs:
  assumes ok: "state_ok s"
    and r: "resolve_names env (find_var_name_count s) objs names = (ns, cnt)"
    and len: "length ns = length objs"
    and pre: "\<forall>ob \<in> set objs. preprocess env ob \<noteq> None"
  shows "tessellated (snd (show_objs env s objs names kw)) = tessellated s"
  by (simp add: show_objs_ok [OF ok r len pre] log_to_def tessellated_auto_cleared)

lemma resolve_names_str: "nm \<noteq> [] \<Longrightarrow> resolve_names env cnt objs (NamesStr nm) = ([nm], cnt)"
  by (simp add: resolve_names_def)

lemma reachable_s_A: "reachable env0 s_A"
  unfolding s_A_def by (rule r_show [OF r_init])

lemma reachable_s_AB: "reachable env0 s_AB"
  unfolding s_AB_def by (rule r_show [OF r_init])

lemma s_A_fields:
  "show_events s_A = [new_event env0 Map.empty (Bytes [1, 2, 3]) ''A'']"
  "build_events s_A = Map.empty"
  "tessellated s_A = []"
  by (simp_all add: s_A_def show_objs_def resolve_names_def dict_get_def clear_def buffer_def
        init_def preprocess_def publish_def log_to_def)

lemma s_AB_fields:
  "show_events s_AB = [new_event env0 Map.empty (Bytes [1]) ''A'',
                       new_event env0 Map.empty (Cad 2) ''B'']"
  "build_events s_AB = Map.empty"
  "tessellated s_AB = []"
  by (simp_all add: s_AB_def show_objs_def resolve_names_def dict_get_def clear_def buffer_def
        init_def preprocess_def preprocess_cad_def env0_def publish_def log_to_def)

lemma show_events_of_s_A: "show_events_of s_A ''A'' True = [new_event env0 Map.empty (Bytes [1, 2, 3]) ''A'']"
  by (simp add: s_A_fields show_events_of_def buffer_def new_event_def)

lemma show_events_of_s_AB:
  "show_events_of s_AB ''B'' True = [new_event env0 Map.empty (Cad 2) ''B'']"
  "show_events_of s_AB ''A'' True = [new_event env0 Map.empty (Bytes [1]) ''A'']"
  by (simp_all add: s_AB_fields show_events_of_def buffer_def new_event_def)

lemma reachable_s_AX: "reachable env0 s_AX"
  unfolding s_AX_def by (rule r_export [OF reachable_s_A])

lemma s_AX_fields:
  "show_events s_AX = [new_event env0 Map.empty (Bytes [1, 2, 3]) ''A'']"
  "build_events s_AX = [''A'' \<mapsto> [[1, 2, 3]]]"
  "tessellated s_AX = []"
proof -
  have c: "show_events_of s_A ''A'' True \<noteq> []" by (simp add: show_events_of_s_A)
  have n: "''A'' \<notin> dom (build_events s_A)" by (simp add: s_A_fields)
  have b: "obj (last (show_events_of s_A ''A'' True)) = Bytes [1, 2, 3]"
    by (simp add: show_events_of_s_A new_event_def)
  show "show_events s_AX = [new_event env0 Map.empty (Bytes [1, 2, 3]) ''A'']"
    "build_events s_AX = [''A'' \<mapsto> [[1, 2, 3]]]" "tessellated s_AX = []"
    unfolding s_AX_def export_fresh_bytes [OF c n b]
    by (simp_all add: log_to_def s_A_fields)
qed

lemma show_events_of_s_AX:
  "show_events_of s_AX ''A'' True = [new_event env0 Map.empty (Bytes [1, 2, 3]) ''A'']"
  by (simp add: s_AX_fields show_events_of_def buffer_def new_event_def)

lemma publish_all_prefix:
  "\<exists>j \<le> length ps. snd (publish_all env kw ps s) =
      s\<lparr>show_events := show_events s
          @ map (\<lambda>p. new_event env kw (the (preprocess env (fst p))) (snd p)) (take j ps)\<rparr>"
proof (induction ps arbitrary: s)
  case Nil
  show ?case by simp
next
  case (Cons p ps)
  obtain ob nm where p: "p = (ob, nm)" by (cases p)
  show ?case
  proof (cases "preprocess env ob")
    case None
    then show ?thesis by (intro exI [of _ 0]) (simp add: p)
  next
    case (Some ob')
    let ?s1 = "s\<lparr>show_events := publish (new_event env kw ob' nm) (show_events s)\<rparr>"
    from Cons.IH [of ?s1] obtain j where j: "j \<le> length ps"
      "snd (publish_all env kw ps ?s1) =
         ?s1\<lparr>show_events := show_events ?s1
            @ map (\<lambda>p. new_event env kw (the (preprocess env (fst p))) (snd p)) (take j ps)\<rparr>"
      by blast
    show ?thesis
      using j by (intro exI [of _ "Suc j"]) (simp add: p Some publish_def)
  qed
qed

lemma show_objs_events_any:
  assumes ok: "state_ok s"
    and r: "resolve_names env (find_var_name_count s) objs names = (ns, cnt)"
  shows "show_events (snd (show_objs env s objs names kw)) = show_events s \<or>
     (length ns = length objs \<and>
      (\<exists>j \<le> length ns. show_events (snd (show_objs env s objs names kw)) =
         filter (\<lambda>e. name e \<notin> set ns)
           (show_events (auto_cleared (s\<lparr>find_var_name_count := cnt\<rparr>) ns kw))
         @ map (\<lambda>p. new_event env kw (the (preprocess env (fst p))) (snd p))
             (zip (take j objs) (take j ns))))"
proof (cases "length ns \<noteq> length objs")
  case True
  with r show ?thesis by (simp add: show_objs_def)
next
  case False
  let ?s0 = "s\<lparr>find_var_name_count := cnt\<rparr>"
  define s1 where "s1 = auto_cleared ?s0 ns kw"
  have c: "(if truthy (dict_get kw ''auto_clear'' (PyBool True))
            then clear ?s0 (Some ns) else (Returns (), ?s0)) = (Returns (), s1)"
    by (simp add: s1_def auto_cleared_def clear_eq)
  define s2 where "s2 = delete_old ns (show_events s1) s1"
  have s2: "show_events s2 = filter (\<lambda>e. name e \<notin> set ns) (show_events s1)"
    by (simp add: s2_def delete_old_buffer)
  obtain j where j: "j \<le> length (zip objs ns)"
    "snd (publish_all env kw (zip objs ns) s2) =
       s2\<lparr>show_events := show_events s2
          @ map (\<lambda>p. new_event env kw (the (preprocess env (fst p))) (snd p))
              (take j (zip objs ns))\<rparr>"
    using publish_all_prefix [of "zip objs ns" env kw s2] by blast
  have "show_events (snd (show_objs env s objs names kw))
      = show_events (snd (publish_all env kw (zip objs ns) s2))"
    using False r c
    by (cases "publish_all env kw (zip objs ns) s2"; cases "fst (publish_all env kw (zip objs ns) s2)")
       (simp_all add: show_objs_def buffer_def log_to_def s2_def [symmetric])
  then have "show_events (snd (show_objs env s objs names kw)) =
         filter (\<lambda>e. name e \<notin> set ns) (show_events s1)
         @ map (\<lambda>p. new_event env kw (the (preprocess env (fst p))) (snd p))
             (zip (take j objs) (take j ns))"
    by (simp add: j(2) s2 take_zip)
  moreover have "j \<le> length ns" using j(1) by simp
  ultimately show ?thesis using False unfolding s1_def by blast
qed

lemma zip_split_at:
  assumes "length objs = length ns" and "i < length ns"
  shows "zip objs ns = zip (take i objs) (take i ns) @ (objs ! i, ns ! i)
           # zip (drop (Suc i) objs) (drop (Suc i) ns)"
proof -
  have o: "take i objs @ objs ! i # drop (Suc i) objs = objs"
    using assms by (simp add: id_take_nth_drop [symmetric])
  have n: "take i ns @ ns ! i # drop (Suc i) ns = ns"
    using assms by (simp add: id_take_nth_drop [symmetric])
  have "zip (take i objs @ objs ! i # drop (Suc i) objs) (take i ns @ ns ! i # drop (Suc i) ns)
      = zip (take i objs) (take i ns) @ (objs ! i, ns ! i)
           # zip (drop (Suc i) objs) (drop (Suc i) ns)"
    using assms by (simp add: zip_append)
  then show ?thesis unfolding o n .
qed

lemma filter_new_events_upto:
  assumes "length objs = length ns" and "i < length ns"
    and "ns ! i \<notin> set (drop (Suc i) ns)"
  shows "filter (\<lambda>e. name e = ns ! i) (map (\<lambda>p. new_event env kw (g (fst p)) (snd p)) (zip objs ns))
     = filter (\<lambda>e. name e = ns ! i)
         (map (\<lambda>p. new_event env kw (g (fst p)) (snd p)) (zip (take i objs) (take i ns)))
       @ [new_event env kw (g (objs ! i)) (ns ! i)]"
proof -
  have "filter (\<lambda>e. name e = ns ! i)
      (map (\<lambda>p. new_event env kw (g (fst p)) (snd p)) (zip (drop (Suc i) objs) (drop (Suc i) ns))) = []"
    by (rule filter_new_events_none [OF assms(3)])
  then show ?thesis
    unfolding zip_split_at [OF assms(1,2)] map_append filter_append list.map filter.simps
    by (simp add: new_event_def)
qed

lemma filter_new_events_count:
  "length (filter (\<lambda>e. name e = k) (map (\<lambda>p. new_event env kw (g (fst p)) (snd p)) (zip objs ns)))
     \<le> count_list ns k"
proof (induction ns arbitrary: objs)
  case Nil
  show ?case by simp
next
  case (Cons n ns)
  show ?case
  proof (cases objs)
    case Nil
    then show ?thesis by simp
  next
    case (Cons ob obs)
    with Cons.IH [of obs] show ?thesis by (simp add: new_event_def)
  qed
qed

lemma count_list_take_le: "count_list (take j xs) k \<le> count_list xs k"
proof (induction xs arbitrary: j)
  case Nil
  show ?case by simp
next
  case (Cons x xs)
  show ?case
  proof (cases j)
    case 0
    then show ?thesis by simp
  next
    case (Suc j')
    with Cons [of j'] show ?thesis by simp
  qed
qed

lemma show_objs_named:
  assumes ok: "state_ok s"
    and r: "resolve_names env (find_var_name_count s) objs names = (ns, cnt)"
    and len: "length ns = length objs"
    and pre: "\<forall>ob \<in> set objs. preprocess env ob \<noteq> None"
    and i: "i < length ns"
    and later: "ns ! i \<notin> set (drop (Suc i) ns)"
  shows "filter (\<lambda>e. name e = ns ! i) (show_events (snd (show_objs env s objs names kw)))
           = filter (\<lambda>e. name e = ns ! i)
               (map (\<lambda>p. new_event env kw (the (preprocess env (fst p))) (snd p))
                  (zip (take i objs) (take i ns)))
             @ [new_event env kw (the (preprocess env (objs ! i))) (ns ! i)]"
    and "show_events_of (snd (show_objs env s objs names kw)) (ns ! i) True
           = filter (\<lambda>e. name e = ns ! i)
               (map (\<lambda>p. new_event env kw (the (preprocess env (fst p))) (snd p))
                  (zip (take i objs) (take i ns)))
             @ [new_event env kw (the (preprocess env (objs ! i))) (ns ! i)]"
    and "build_events (snd (show_objs env s objs names kw)) (ns ! i) = None"
proof -
  let ?s' = "snd (show_objs env s objs names kw)"
  let ?c = "auto_cleared (s\<lparr>find_var_name_count := cnt\<rparr>) ns kw"
  let ?new = "map (\<lambda>p. new_event env kw (the (preprocess env (fst p))) (snd p)) (zip objs ns)"
  let ?ev = "new_event env kw (the (preprocess env (objs ! i))) (ns ! i)"
  have se: "show_events ?s' = filter (\<lambda>e. name e \<notin> set ns) (show_events ?c) @ ?new"
    and be: "build_events ?s' = (\<lambda>k. if k \<in> set ns then None else build_events ?c k)"
    by (simp_all add: show_objs_ok [OF ok r len pre] log_to_def)
  have n: "ns ! i \<in> set ns" using i by simp
  have "filter (\<lambda>e. name e = ns ! i) (filter (\<lambda>e. name e \<notin> set ns) (show_events ?c)) = []"
    by (rule filter_filter_excl) (use n in simp)
  then show 1: "filter (\<lambda>e. name e = ns ! i) (show_events ?s')
           = filter (\<lambda>e. name e = ns ! i)
               (map (\<lambda>p. new_event env kw (the (preprocess env (fst p))) (snd p))
                  (zip (take i objs) (take i ns)))
             @ [?ev]"
    unfolding se filter_append
    using filter_new_events_upto [OF len [symmetric] i later, of env kw "\<lambda>ob. the (preprocess env ob)"]
    by simp
  have l: "log_ok (show_events ?s')"
    using state_ok_after_show [OF ok, of env objs names kw] by (simp add: state_ok_def)
  have lv: "live (ns ! i) ?ev"
    by (simp add: live_def new_event_def)
  have m: "?ev \<in> set (show_events ?s')"
  proof -
    have "?ev \<in> set (filter (\<lambda>e. name e = ns ! i) (show_events ?s'))"
      unfolding 1 by simp
    then show ?thesis by simp
  qed
  show "show_events_of ?s' (ns ! i) True
           = filter (\<lambda>e. name e = ns ! i)
               (map (\<lambda>p. new_event env kw (the (preprocess env (fst p))) (snd p))
                  (zip (take i objs) (take i ns)))
             @ [?ev]"
    unfolding show_events_of_ok [OF l] filter_live_name [OF l m lv] by (rule 1)
  show "build_events ?s' (ns ! i) = None"
    using n by (simp add: be)
qed

lemma show_objs_one_live:
  assumes ok: "state_ok s"
    and r: "resolve_names env (find_var_name_count s) objs names = (ns, cnt)"
    and d: "count_list ns k \<le> 1"
    and one: "length (filter (live k) (show_events s)) \<le> 1"
  shows "length (filter (live k) (show_events (snd (show_objs env s objs names kw)))) \<le> 1"
proof -
  let ?s' = "snd (show_objs env s objs names kw)"
  let ?s0 = "s\<lparr>find_var_name_count := cnt\<rparr>"
  let ?c = "auto_cleared ?s0 ns kw"
  from show_objs_events_any [OF ok r, of kw]
  consider "show_events ?s' = show_events s"
    | j where "length ns = length objs" "j \<le> length ns"
        "show_events ?s' = filter (\<lambda>e. name e \<notin> set ns) (show_events ?c)
           @ map (\<lambda>p. new_event env kw (the (preprocess env (fst p))) (snd p))
               (zip (take j objs) (take j ns))"
    by blast
  then show ?thesis
  proof cases
    case 1
    with one show ?thesis by simp
  next
    case (2 j)
    let ?new = "map (\<lambda>p. new_event env kw (the (preprocess env (fst p))) (snd p))
               (zip (take j objs) (take j ns))"
    have ok0: "state_ok ?s0" using ok by (simp add: state_ok_cong [of ?s0 s])
    have nl: "filter (live k') ?new = filter (\<lambda>e. name e = k') ?new" for k'
      by (rule filter_cong [OF refl]) (auto simp: live_def new_event_def)
    have "length (filter (\<lambda>e. name e = k) ?new) \<le> count_list (take j ns) k"
      by (rule filter_new_events_count)
    also have "\<dots> \<le> count_list ns k" by (rule count_list_take_le)
    finally have new1: "length (filter (live k) ?new) \<le> 1"
      unfolding nl using d by simp
    show ?thesis
    proof (cases "k \<in> set ns")
      case True
      have "filter (live k) (filter (\<lambda>e. name e \<notin> set ns) (show_events ?c)) = []"
        by (rule filter_filter_excl) (use True in \<open>simp add: live_def\<close>)
      with new1 show ?thesis unfolding 2(3) filter_append by simp
    next
      case False
      then have "k \<notin> set (take j ns)" by (auto dest: in_set_takeD)
      then have n: "filter (live k) ?new = []"
        unfolding nl by (rule filter_new_events_none)
      have a: "filter (live k) (filter (\<lambda>e. name e \<notin> set ns) (show_events ?c))
          = filter (live k) (show_events ?c)"
        by (rule filter_filter_absorb) (use False in \<open>auto simp: live_def\<close>)
      have "length (filter (live k) (show_events ?c)) \<le> length (filter (live k) (show_events ?s0))"
        by (rule lives_auto_cleared [OF ok0])
      with one show ?thesis unfolding 2(3) filter_append a n by simp
    qed
  qed
qed

lemma reachable_once_reachable: "reachable_once env k s \<Longrightarrow> reachable env s"
  by (induction rule: reachable_once.induct) (auto intro: reachable.intros)

lemma reachable_once_one_live:
  "reachable_once env k s \<Longrightarrow> length (filter (live k) (show_events s)) \<le> 1"
proof (induction rule: reachable_once.induct)
  case o_init
  show ?case by (simp add: init_def)
next
  case (o_show s objs names kw)
  have ok: "state_ok s"
    by (rule reachable_state_ok [OF reachable_once_reachable [OF o_show.hyps(1)]])
  obtain ns cnt where r: "resolve_names env (find_var_name_count s) objs names = (ns, cnt)"
    by (cases "resolve_names env (find_var_name_count s) objs names")
  with o_show.hyps(2) have "count_list ns k \<le> 1" by simp
  from show_objs_one_live [OF ok r this o_show.IH] show ?case .
next
  case (o_remove s nm)
  have ok: "log_ok (show_events s)"
    using reachable_state_ok [OF reachable_once_reachable [OF o_remove.hyps]]
    by (simp add: state_ok_def)
  from o_remove.IH show ?case by (simp add: lives_after_remove [OF ok])
next
  case (o_clear s except_names)
  have ok: "state_ok s"
    by (rule reachable_state_ok [OF reachable_once_reachable [OF o_clear.hyps]])
  from o_clear.IH show ?case by (simp add: clear_eq removes_lives [OF ok])
next
  case (o_export s nm)
  then show ?case using export_shape [of env s nm] by simp
next
  case (o_start s)
  then show ?case by (simp add: start_def run_server_def log_to_def Let_def split: option.splits)
next
  case (o_stop s args)
  then show ?case by (simp add: stop_def log_to_def Let_def split: option.splits)
qed

lemma build_object_other:
  "k \<noteq> nm \<Longrightarrow> build_events (snd (build_object env s k ev)) nm = build_events s nm"
  by (cases "obj ev")
     (auto simp: build_object_def Let_def log_to_def split: option.splits)

lemma export_cache_keep:
  assumes "build_events s nm \<noteq> None"
  shows "build_events (snd (export env s k)) nm = build_events s nm"
proof (cases "show_events_of s k True = []")
  case True
  then show ?thesis by (simp add: export_def log_to_def)
next
  case False
  show ?thesis
  proof (cases "k \<in> dom (build_events s)")
    case True
    with False show ?thesis
      by (auto simp: export_def Let_def first_item_def split: option.splits list.splits)
  next
    case nin: False
    with assms have kn: "k \<noteq> nm" by auto
    obtain r s1 where b: "build_object env s k (last (show_events_of s k True)) = (r, s1)"
      by (cases "build_object env s k (last (show_events_of s k True))")
    from build_object_other [OF kn, of env s "last (show_events_of s k True)"] b
    have c: "build_events s1 nm = build_events s nm" by simp
    have "snd (export env s k) = s1"
      using False nin b
      by (cases r) (auto simp: export_def Let_def first_item_def split: option.splits list.splits)
    with c show ?thesis by simp
  qed
qed

lemma names_after_remove1:
  assumes "log_ok (show_events s)" and "k \<noteq> nm"
  shows "filter (\<lambda>e. name e = nm) (show_events (snd (remove s k)))
       = filter (\<lambda>e. name e = nm) (show_events s)"
  using names_after_remove [OF assms(1), of k "{nm}"] assms(2) by simp

lemma show_objs_other:
  assumes ok: "state_ok s"
    and r: "resolve_names env (find_var_name_count s) objs names = (ns, cnt)"
    and nm: "nm \<notin> set ns"
    and na: "\<not> truthy (dict_get kw ''auto_clear'' (PyBool True))"
  shows "filter (\<lambda>e. name e = nm) (show_events (snd (show_objs env s objs names kw)))
       = filter (\<lambda>e. name e = nm) (show_events s)"
    and "build_events (snd (show_objs env s objs names kw)) nm = build_events s nm"
proof -
  let ?s' = "snd (show_objs env s objs names kw)"
  let ?s0 = "s\<lparr>find_var_name_count := cnt\<rparr>"
  have "filter (\<lambda>e. name e = nm) (show_events ?s') = filter (\<lambda>e. name e = nm) (show_events s)
      \<and> build_events ?s' nm = build_events s nm"
  proof (cases "length ns \<noteq> length objs")
    case True
    with r show ?thesis by (simp add: show_objs_def)
  next
    case False
    define s2 where "s2 = delete_old ns (show_events s) ?s0"
    have s2: "show_events s2 = filter (\<lambda>e. name e \<notin> set ns) (show_events s)"
      "build_events s2 nm = build_events s nm"
      unfolding s2_def
      using delete_old_eq [of "[]" ns ?s0 "show_events s" "build_events s"] nm by simp_all
    obtain evs where evs:
      "snd (publish_all env kw (zip objs ns) s2) = s2\<lparr>show_events := show_events s2 @ evs\<rparr>"
      "\<forall>e \<in> set evs. \<not> is_remove e \<and> name e \<in> snd ` set (zip objs ns)"
      using publish_all_any [of env kw "zip objs ns" s2] by blast
    have "snd ` set (zip objs ns) \<subseteq> set ns" by (auto dest: set_zip_rightD)
    with evs(2) nm have "\<forall>e \<in> set evs. name e \<noteq> nm" by blast
    then have e0: "filter (\<lambda>e. name e = nm) evs = []" by (simp add: filter_empty_conv)
    have a: "filter (\<lambda>e. name e = nm) (filter (\<lambda>e. name e \<notin> set ns) (show_events s))
        = filter (\<lambda>e. name e = nm) (show_events s)"
      by (rule filter_filter_absorb) (use nm in simp)
    define s3 where "s3 = snd (publish_all env kw (zip objs ns) s2)"
    have s3: "filter (\<lambda>e. name e = nm) (show_events s3) = filter (\<lambda>e. name e = nm) (show_events s)"
      "build_events s3 nm = build_events s nm"
      unfolding s3_def evs(1) using s2(2) by (simp_all add: s2(1) a e0 del: filter_filter)
    have "show_events ?s' = show_events s3 \<and> build_events ?s' = build_events s3"
      using False r na
      by (cases "publish_all env kw (zip objs ns) s2"; cases "fst (publish_all env kw (zip objs ns) s2)")
         (simp_all add: show_objs_def buffer_def log_to_def s3_def s2_def [symmetric])
    with s3 show ?thesis by simp
  qed
  then show "filter (\<lambda>e. name e = nm) (show_events ?s') = filter (\<lambda>e. name e = nm) (show_events s)"
    and "build_events ?s' nm = build_events s nm"
    by simp_all
qed

lemma undisturbed_keeps:
  assumes "undisturbed env nm s s'" and "reachable env s"
  shows "reachable env s'
     \<and> filter (\<lambda>e. name e = nm) (show_events s') = filter (\<lambda>e. name e = nm) (show_events s)
     \<and> (build_events s nm \<noteq> None \<longrightarrow> build_events s' nm = build_events s nm)"
  using assms
proof (induction rule: undisturbed.induct)
  case u_refl
  then show ?case by simp
next
  case (u_export s' k)
  then have ih: "reachable env s'"
    "filter (\<lambda>e. name e = nm) (show_events s') = filter (\<lambda>e. name e = nm) (show_events s)"
    "build_events s nm \<noteq> None \<longrightarrow> build_events s' nm = build_events s nm"
    by simp_all
  have "show_events (snd (export env s' k)) = show_events s'"
    using export_shape [of env s' k] by simp
  with ih export_cache_keep [of s' nm env k] show ?case
    by (auto intro: r_export)
next
  case (u_remove s' k)
  then have ih: "reachable env s'"
    "filter (\<lambda>e. name e = nm) (show_events s') = filter (\<lambda>e. name e = nm) (show_events s)"
    "build_events s nm \<noteq> None \<longrightarrow> build_events s' nm = build_events s nm"
    by simp_all
  have ok: "state_ok s'" by (rule reachable_state_ok [OF ih(1)])
  then have l: "log_ok (show_events s')" by (simp add: state_ok_def)
  from ih names_after_remove1 [OF l u_remove.hyps(2)] cache_after_remove [OF ok, of k] u_remove.hyps(2)
  show ?case by (auto intro: r_remove)
next
  case (u_clear s' ns)
  then have ih: "reachable env s'"
    "filter (\<lambda>e. name e = nm) (show_events s') = filter (\<lambda>e. name e = nm) (show_events s)"
    "build_events s nm \<noteq> None \<longrightarrow> build_events s' nm = build_events s nm"
    by simp_all
  have ok: "state_ok s'" by (rule reachable_state_ok [OF ih(1)])
  let ?rs = "filter (\<lambda>k. k \<notin> set ns) (map name (show_events s'))"
  have d: "set ?rs \<inter> {nm} = {}" using u_clear.hyps(2) by auto
  have c: "snd (clear s' (Some ns)) = foldl (\<lambda>s nm. snd (remove s nm)) s' ?rs"
    by (simp add: clear_eq)
  have 1: "filter (\<lambda>e. name e = nm) (show_events (snd (clear s' (Some ns))))
      = filter (\<lambda>e. name e = nm) (show_events s')"
    unfolding c using removes_names [OF ok d] by simp
  have 2: "build_events (snd (clear s' (Some ns))) nm = build_events s' nm"
    unfolding c using u_clear.hyps(2) by (simp add: removes_cache [OF ok])
  from ih 1 2 show ?case by (auto intro: r_clear)
next
  case (u_show s' objs names kw)
  then have ih: "reachable env s'"
    "filter (\<lambda>e. name e = nm) (show_events s') = filter (\<lambda>e. name e = nm) (show_events s)"
    "build_events s nm \<noteq> None \<longrightarrow> build_events s' nm = build_events s nm"
    by simp_all
  have ok: "state_ok s'" by (rule reachable_state_ok [OF ih(1)])
  obtain ns cnt where r: "resolve_names env (find_var_name_count s') objs names = (ns, cnt)"
    by (cases "resolve_names env (find_var_name_count s') objs names")
  with u_show.hyps(2) have n: "nm \<notin> set ns" by simp
  from ih show_objs_other [OF ok r n u_show.hyps(3)] show ?case
    by (auto intro: r_show)
next
  case (u_start s')
  then have ih: "reachable env s'"
    "filter (\<lambda>e. name e = nm) (show_events s') = filter (\<lambda>e. name e = nm) (show_events s)"
    "build_events s nm \<noteq> None \<longrightarrow> build_events s' nm = build_events s nm"
    by simp_all
  have "show_events (snd (start env s')) = show_events s'"
    "build_events (snd (start env s')) = build_events s'"
    by (simp_all add: start_def run_server_def log_to_def Let_def split: option.splits)
  with ih r_start [OF ih(1)] show ?case by simp
next
  case (u_stop s' args)
  then have ih: "reachable env s'"
    "filter (\<lambda>e. name e = nm) (show_events s') = filter (\<lambda>e. name e = nm) (show_events s)"
    "build_events s nm \<noteq> None \<longrightarrow> build_events s' nm = build_events s nm"
    by simp_all
  have "show_events (snd (stop s' args)) = show_events s'"
    "build_events (snd (stop s' args)) = build_events s'"
    by (simp_all add: stop_def log_to_def Let_def split: option.splits)
  with ih r_stop [OF ih(1)] show ?case by simp
qed

lemma lives_via_names:
  "filter (live nm) xs = filter (live nm) (filter (\<lambda>e. name e = nm) xs)"
  by (rule filter_filter_absorb [symmetric]) (simp add: live_def)

lemma undisturbed_current:
  assumes "undisturbed env nm s s'" and "reachable env s"
  shows "show_events_of s' nm True = show_events_of s nm True"
proof -
  note k = undisturbed_keeps [OF assms]
  have l: "log_ok (show_events s)" "log_ok (show_events s')"
    using reachable_state_ok [OF assms(2)] reachable_state_ok [OF k [THEN conjunct1]]
    by (simp_all add: state_ok_def)
  have "filter (live nm) (show_events s') = filter (live nm) (show_events s)"
    using k [THEN conjunct2, THEN conjunct1]
    by (subst lives_via_names, subst (2) lives_via_names) simp
  then show ?thesis by (simp only: show_events_of_ok [OF l(1)] show_events_of_ok [OF l(2)])
qed

lemma export_fresh_result:
  assumes "show_events_of s nm True \<noteq> []" and "nm \<notin> dom (build_events s)"
    and "fst (export env s nm) = Returns r"
  shows "\<exists>x. r = Some x \<and> build_events (snd (export env s nm)) nm = Some [x]"
proof (cases "obj (last (show_events_of s nm True))")
  case (Bytes b)
  from export_fresh_bytes [OF assms(1,2) Bytes, of env] assms(3) show ?thesis
    by (auto simp: log_to_def)
next
  case (Cad c)
  show ?thesis
  proof (cases "tessellate_event env c (last (show_events_of s nm True))")
    case None
    have "fst (export env s nm) = Raises BuildFailure"
      using assms(1,2) Cad None by (simp add: export_def build_object_def log_to_def)
    with assms(3) show ?thesis by simp
  next
    case (Some parts)
    from export_fresh_cad [OF assms(1,2) Cad Some] assms(3) show ?thesis
      by (auto simp: log_to_def)
  qed
qed

lemma reachable_s_AA: "reachable env0 s_AA"
  unfolding s_AA_def by (rule r_show [OF r_init])

lemma s_AA_fields:
  "show_events s_AA = [new_event env0 Map.empty (Bytes [1]) ''A'',
                       new_event env0 Map.empty (Bytes [2]) ''A'']"
  "build_events s_AA = Map.empty"
  "tessellated s_AA = []"
  by (simp_all add: s_AA_def show_objs_def resolve_names_def dict_get_def clear_def buffer_def
        init_def preprocess_def publish_def log_to_def)

lemma show_events_of_s_AA:
  "show_events_of s_AA ''A'' True = [new_event env0 Map.empty (Bytes [1]) ''A'',
                                     new_event env0 Map.empty (Bytes [2]) ''A'']"
  by (simp add: s_AA_fields show_events_of_def buffer_def new_event_def)

lemma s_A_removed:
  "show_events (snd (remove s_A ''A''))
     = [(new_event env0 Map.empty (Bytes [1, 2, 3]) ''A'')\<lparr>is_remove := True\<rparr>]"
  by (simp add: remove_def show_events_of_s_A s_A_fields delete_def ev_eq_def publish_def Let_def)

lemma show_B_on_s_AX:
  "show_events (snd (show_objs env0 s_AX [Bytes [5]] (NamesStr ''B'') Map.empty))
     = [(new_event env0 Map.empty (Bytes [1, 2, 3]) ''A'')\<lparr>is_remove := True\<rparr>,
        new_event env0 Map.empty (Bytes [5]) ''B'']"
proof -
  have ok: "state_ok s_AX" by (rule reachable_state_ok [OF reachable_s_AX])
  then have l: "log_ok (show_events s_AX)" by (simp add: state_ok_def)
  have r: "resolve_names env0 (find_var_name_count s_AX) [Bytes [5]] (NamesStr ''B'')
      = ([''B''], find_var_name_count s_AX)"
    by (simp add: resolve_names_str)
  have p: "\<forall>ob \<in> set [Bytes [5] :: nat payload]. preprocess env0 ob \<noteq> None"
    by (simp add: preprocess_def)
  have c: "show_events (auto_cleared s_AX [''B''] Map.empty)
      = [(new_event env0 Map.empty (Bytes [1, 2, 3]) ''A'')\<lparr>is_remove := True\<rparr>]"
    by (simp add: auto_cleared_def dict_get_def clear_eq s_AX_fields remove_ok [OF l]
          new_event_def live_def)
  show ?thesis
    using c by (simp add: show_objs_ok [OF ok r _ p] log_to_def preprocess_def new_event_def)
qed

lemma reachable_once_s_AX: "reachable_once env0 k s_AX"
  unfolding s_AX_def s_A_def
  by (rule o_export [OF o_show [OF o_init]]) (simp add: resolve_names_str)

section \<open>The claims\<close>

text \<open>
  C1, as amended. For every name with no current (non-removed) show event in the log,
  \<^verbatim>\<open>YACV.export(name)\<close> does not fail: it logs the warning \<^verbatim>\<open>'Object %s not found'\<close> and
  returns \<^verbatim>\<open>None\<close>, that is no bytes, raising nothing and changing nothing else (no cache
  entry, no build). The lookup of the older \<^verbatim>\<open>Server.export\<close> raises \<^verbatim>\<open>HTTPNotFound\<close> when
  no stored event has the name.
\<close>

theorem export_not_found:
  "(\<not> (\<exists>e \<in> set (show_events s). live nm e) \<longrightarrow>
      export env s nm = (Returns None, log_to WARNING ''Object %s not found'' s))
   \<and> (nm \<notin> data_name ` set events \<longrightarrow>
      Server_export_lookup events nm
        = Raises (HTTPNotFound (''No object named '' @ nm @ '' was previously shown'')))"
proof (intro conjI impI)
  assume "\<not> (\<exists>e \<in> set (show_events s). live nm e)"
  from show_events_of_no_live [OF this]
  show "export env s nm = (Returns None, log_to WARNING ''Object %s not found'' s)"
    by (simp add: export_def)
next
  assume "nm \<notin> data_name ` set events"
  then have "find_data nm events = (False, None)"
    by (induction events) auto
  then show "Server_export_lookup events nm
        = Raises (HTTPNotFound (''No object named '' @ nm @ '' was previously shown''))"
    by (simp add: Server_export_lookup_def buffer_def)
qed

theorem export_not_found_counterexample:
  "show_events (init :: nat yacv) = []
   \<and> export env0 init ''A'' = (Returns None, log_to WARNING ''Object %s not found'' init)"
  by (simp add: export_def show_events_of_def buffer_def init_def)

theorem export_not_found_witness:
  "export env0 (snd (remove s_A ''A'')) ''A''
     = (Returns None, log_to WARNING ''Object %s not found'' (snd (remove s_A ''A'')))
   \<and> Server_export_lookup
        [\<lparr>data_name = ''B'', data_hash = ''h'', data_obj = Some (2 :: nat), data_kwargs = None\<rparr>] ''A''
     = Raises (HTTPNotFound ''No object named A was previously shown'')"
  using export_not_found [of "snd (remove s_A ''A'')" "''A''" env0
      "[\<lparr>data_name = ''B'', data_hash = ''h'', data_obj = Some (2 :: nat), data_kwargs = None\<rparr>]"]
  by (simp add: s_A_removed live_def new_event_def)

text \<open>
  C2. The claim: after \<^verbatim>\<open>show(obj, name="A")\<close> and \<^verbatim>\<open>remove("A")\<close> the query
  \<^verbatim>\<open>shown_object_names()\<close> returns a list without \<^verbatim>\<open>"A"\<close> and raises nothing. What the
  code does: \<^verbatim>\<open>remove\<close> deletes the show events of the name from the buffer and leaves its
  tombstone, and \<^verbatim>\<open>shown_object_names\<close> then calls \<^verbatim>\<open>res.remove(name)\<close> for a name that
  \<^verbatim>\<open>res\<close> does not hold. In every reachable state, removing a name that has a current show
  event makes the query raise \<^verbatim>\<open>ValueError\<close>.
\<close>

theorem shown_object_names_raises_after_remove:
  assumes "reachable env s" and "show_events_of s nm True \<noteq> []"
  shows "shown_object_names (snd (remove s nm)) True
       = Raises (ValueError ''list.remove(x): x not in list'')"
proof -
  have l: "log_ok (show_events s)"
    using reachable_state_ok [OF assms(1)] by (simp add: state_ok_def)
  have ne: "filter (live nm) (show_events s) \<noteq> []"
    using assms(2) by (simp add: show_events_of_ok [OF l])
  define t where "t = (last (filter (live nm) (show_events s)))\<lparr>is_remove := True\<rparr>"
  have "live nm (last (filter (live nm) (show_events s)))" by (rule last_filter_live [OF ne])
  then have t: "name t = nm" "is_remove t" by (simp_all add: t_def live_def)
  have se: "show_events (snd (remove s nm)) = filter (\<lambda>e. name e \<noteq> nm) (show_events s) @ [t]"
    using ne by (simp add: remove_ok [OF l] t_def)
  show ?thesis
    unfolding shown_object_names_def buffer_def se
    by (rule names_loop_tomb) (simp_all add: t)
qed


theorem shown_object_names_raises_after_remove_witness:
  "show_events_of s_A ''A'' True \<noteq> [] \<and>
   shown_object_names (snd (remove s_A ''A'')) True
     = Raises (ValueError ''list.remove(x): x not in list'')"
proof -
  have h: "show_events_of s_A ''A'' True \<noteq> []" by (simp add: show_events_of_s_A)
  from shown_object_names_raises_after_remove [OF reachable_s_A h] h show ?thesis by simp
qed

text \<open>
  C3, as amended. Let a name have a current show event and no cache entry. When the event
  carries a CAD object and the build function returns, the first \<^verbatim>\<open>export(name)\<close> invokes
  the build function exactly once, stores its joined output as the cache entry and returns
  it. When the event carries raw bytes, the first export stores and returns those bytes and
  does not invoke the build function. In both cases, in a reachable state, any subsequent
  \<^verbatim>\<open>export(name)\<close> with no intervening call that shows or removes the name returns the
  bytes of the first result and changes nothing: no further build. A \<^verbatim>\<open>clear\<close> that does
  not except the name and a \<^verbatim>\<open>show\<close> of other names with \<^verbatim>\<open>auto_clear\<close> on call
  \<^verbatim>\<open>remove\<close> for the name, so they count as removing it: an export after them returns
  \<^verbatim>\<open>None\<close>. Exports of any name, removals of other names, a \<^verbatim>\<open>clear\<close> that excepts the
  name, shows of other names with \<^verbatim>\<open>auto_clear\<close> false, \<^verbatim>\<open>start\<close> and \<^verbatim>\<open>stop\<close> may
  come in between.
\<close>

theorem export_builds_once:
  assumes "show_events_of s nm True \<noteq> []" and "nm \<notin> dom (build_events s)"
  shows "(case obj (last (show_events_of s nm True)) of
            Cad c \<Rightarrow>
              (case tessellate_event env c (last (show_events_of s nm True)) of
                 Some parts \<Rightarrow>
                   fst (export env s nm) = Returns (Some (concat parts))
                 \<and> tessellated (snd (export env s nm)) = tessellated s @ [c]
                 \<and> build_events (snd (export env s nm)) = (build_events s)(nm \<mapsto> [concat parts])
               | None \<Rightarrow> True)
          | Bytes b \<Rightarrow>
              fst (export env s nm) = Returns (Some b)
            \<and> tessellated (snd (export env s nm)) = tessellated s
            \<and> build_events (snd (export env s nm)) = (build_events s)(nm \<mapsto> [b]))
       \<and> show_events (snd (export env s nm)) = show_events s
       \<and> (reachable env s \<and> fst (export env s nm) = Returns r
            \<and> undisturbed env nm (snd (export env s nm)) s2
          \<longrightarrow> export env s2 nm = (Returns r, s2))"
proof -
  have 1: "case obj (last (show_events_of s nm True)) of
            Cad c \<Rightarrow>
              (case tessellate_event env c (last (show_events_of s nm True)) of
                 Some parts \<Rightarrow>
                   fst (export env s nm) = Returns (Some (concat parts))
                 \<and> tessellated (snd (export env s nm)) = tessellated s @ [c]
                 \<and> build_events (snd (export env s nm)) = (build_events s)(nm \<mapsto> [concat parts])
               | None \<Rightarrow> True)
          | Bytes b \<Rightarrow>
              fst (export env s nm) = Returns (Some b)
            \<and> tessellated (snd (export env s nm)) = tessellated s
            \<and> build_events (snd (export env s nm)) = (build_events s)(nm \<mapsto> [b])"
  proof (cases "obj (last (show_events_of s nm True))")
    case (Bytes b)
    from export_fresh_bytes [OF assms Bytes, of env] show ?thesis
      by (simp add: Bytes log_to_def)
  next
    case (Cad c)
    show ?thesis
    proof (cases "tessellate_event env c (last (show_events_of s nm True))")
      case None
      then show ?thesis by (simp add: Cad)
    next
      case (Some parts)
      from export_fresh_cad [OF assms Cad Some] show ?thesis
        by (simp add: Cad Some log_to_def)
    qed
  qed
  have 2: "show_events (snd (export env s nm)) = show_events s"
    using export_shape [of env s nm] by simp
  have 3: "export env s2 nm = (Returns r, s2)"
    if a: "reachable env s \<and> fst (export env s nm) = Returns r
            \<and> undisturbed env nm (snd (export env s nm)) s2"
  proof -
    let ?s1 = "snd (export env s nm)"
    from a have rs: "reachable env s" and fr: "fst (export env s nm) = Returns r"
      and u: "undisturbed env nm ?s1 s2"
      by simp_all
    have r1: "reachable env ?s1" by (rule r_export [OF rs])
    from export_fresh_result [OF assms fr] obtain x where
      x: "r = Some x" "build_events ?s1 nm = Some [x]"
      by blast
    have "show_events_of ?s1 nm True = show_events_of s nm True"
      by (simp add: show_events_of_def 2)
    with undisturbed_current [OF u r1] assms(1)
    have c: "show_events_of s2 nm True \<noteq> []" by simp
    from undisturbed_keeps [OF u r1] x(2)
    have "build_events s2 nm = Some [x]" by simp
    from export_cached [OF c this] x(1) show ?thesis by simp
  qed
  from 1 2 3 show ?thesis by blast
qed

theorem export_builds_once_counterexample:
  "show_events_of s_A ''A'' True \<noteq> [] \<and> build_events s_A ''A'' = None
   \<and> fst (export env0 s_A ''A'') = Returns (Some [1, 2, 3])
   \<and> tessellated s_A = [] \<and> tessellated (snd (export env0 s_A ''A'')) = []
   \<and> fst (export env0 (snd (show_objs env0 (snd (export env0 s_A ''A''))
                                 [Bytes [5]] (NamesStr ''B'') Map.empty)) ''A'') = Returns None"
proof -
  have c: "show_events_of s_A ''A'' True \<noteq> []" by (simp add: show_events_of_s_A)
  have n: "''A'' \<notin> dom (build_events s_A)" by (simp add: s_A_fields)
  have b: "obj (last (show_events_of s_A ''A'' True)) = Bytes [1, 2, 3]"
    by (simp add: show_events_of_s_A new_event_def)
  have 1: "fst (export env0 s_A ''A'') = Returns (Some [1, 2, 3])"
    "tessellated (snd (export env0 s_A ''A'')) = []"
    unfolding export_fresh_bytes [OF c n b]
    by (simp_all add: s_A_fields log_to_def)
  have "\<not> (\<exists>e \<in> set (show_events (snd (show_objs env0 s_AX [Bytes [5]] (NamesStr ''B'') Map.empty))).
          live ''A'' e)"
    by (simp add: show_B_on_s_AX live_def new_event_def)
  from show_events_of_no_live [OF this]
  have 2: "fst (export env0 (snd (show_objs env0 (snd (export env0 s_A ''A''))
                                 [Bytes [5]] (NamesStr ''B'') Map.empty)) ''A'') = Returns None"
    by (simp add: export_def s_AX_def)
  from c 1 2 show ?thesis by (simp add: s_A_fields)
qed

theorem export_builds_once_witness:
  "fst (export env0 s_AB ''B'') = Returns (Some [1, 2, 3])
   \<and> tessellated (snd (export env0 s_AB ''B'')) = [2]
   \<and> build_events (snd (export env0 s_AB ''B'')) ''B'' = Some [[1, 2, 3]]
   \<and> export env0 (snd (export env0 (snd (export env0 s_AB ''B'')) ''A'')) ''B''
       = (Returns (Some [1, 2, 3]), snd (export env0 (snd (export env0 s_AB ''B'')) ''A''))"
proof -
  let ?s1 = "snd (export env0 s_AB ''B'')"
  let ?s2 = "snd (export env0 ?s1 ''A'')"
  have c: "show_events_of s_AB ''B'' True \<noteq> []" by (simp add: show_events_of_s_AB)
  have n: "''B'' \<notin> dom (build_events s_AB)" by (simp add: s_AB_fields)
  have t: "tessellate_event env0 2 (new_event env0 Map.empty (Cad 2) ''B'') = Some [[1, 2], [3]]"
    by (simp add: tessellate_event_def env0_def)
  have o: "obj (new_event env0 Map.empty (Cad 2) ''B'') = Cad 2" by (simp add: new_event_def)
  have u: "undisturbed env0 ''B'' ?s1 ?s2" by (rule u_export [OF u_refl])
  note e = export_builds_once [OF c n, of env0 "Some [1, 2, 3]" ?s2]
  have 1: "fst (export env0 s_AB ''B'') = Returns (Some [1, 2, 3])"
    and 2: "tessellated ?s1 = [2]"
    and 3: "build_events ?s1 ''B'' = Some [[1, 2, 3]]"
    using e by (simp_all add: show_events_of_s_AB o t s_AB_fields)
  from e 1 u reachable_s_AB have "export env0 ?s2 ''B'' = (Returns (Some [1, 2, 3]), ?s2)"
    by blast
  with 1 2 3 show ?thesis by simp
qed

text \<open>
  C4, as amended. For every name: in every state reached without a \<^verbatim>\<open>show\<close> call that gives
  the name to more than one of its objects, the log holds at most one live event of the
  name. In any reachable state, a \<^verbatim>\<open>show\<close> call whose objects are accepted and that gives
  the name to exactly one of them returns normally, deletes every prior event of the name
  from the buffer, publishes exactly one new event for it and leaves no build-cache entry for
  it, so that exactly one current event of the name remains, the latest.
\<close>

theorem show_replaces:
  "(reachable_once env k s' \<longrightarrow> length (filter (live k) (show_events s')) \<le> 1)
   \<and> (reachable env s
        \<and> resolve_names env (find_var_name_count s) objs names = (ns, cnt)
        \<and> length ns = length objs
        \<and> (\<forall>ob \<in> set objs. preprocess env ob \<noteq> None)
        \<and> i < length ns \<and> ns ! i \<notin> set (take i ns) \<and> ns ! i \<notin> set (drop (Suc i) ns) \<longrightarrow>
          fst (show_objs env s objs names kw) = Returns ()
        \<and> filter (\<lambda>e. name e = ns ! i) (show_events (snd (show_objs env s objs names kw)))
            = [new_event env kw (the (preprocess env (objs ! i))) (ns ! i)]
        \<and> show_events_of (snd (show_objs env s objs names kw)) (ns ! i) True
            = [new_event env kw (the (preprocess env (objs ! i))) (ns ! i)]
        \<and> build_events (snd (show_objs env s objs names kw)) (ns ! i) = None)"
proof (intro conjI impI)
  assume "reachable_once env k s'"
  then show "length (filter (live k) (show_events s')) \<le> 1"
    by (rule reachable_once_one_live)
next
  assume a: "reachable env s
        \<and> resolve_names env (find_var_name_count s) objs names = (ns, cnt)
        \<and> length ns = length objs
        \<and> (\<forall>ob \<in> set objs. preprocess env ob \<noteq> None)
        \<and> i < length ns \<and> ns ! i \<notin> set (take i ns) \<and> ns ! i \<notin> set (drop (Suc i) ns)"
  then have "reachable env s" by (rule conjunct1)
  then have ok: "state_ok s" by (rule reachable_state_ok)
  from a have r: "resolve_names env (find_var_name_count s) objs names = (ns, cnt)"
    and len: "length ns = length objs"
    and p: "\<forall>ob \<in> set objs. preprocess env ob \<noteq> None" and i: "i < length ns"
    and before: "ns ! i \<notin> set (take i ns)" and later: "ns ! i \<notin> set (drop (Suc i) ns)"
    by simp_all
  have e: "filter (\<lambda>e. name e = ns ! i)
      (map (\<lambda>p. new_event env kw (the (preprocess env (fst p))) (snd p))
         (zip (take i objs) (take i ns))) = []"
    by (rule filter_new_events_none [OF before])
  show "fst (show_objs env s objs names kw) = Returns ()"
    by (simp add: show_objs_ok [OF ok r len p])
  show "filter (\<lambda>e. name e = ns ! i) (show_events (snd (show_objs env s objs names kw)))
            = [new_event env kw (the (preprocess env (objs ! i))) (ns ! i)]"
    unfolding show_objs_named(1) [OF ok r len p i later] e by simp
  show "show_events_of (snd (show_objs env s objs names kw)) (ns ! i) True
            = [new_event env kw (the (preprocess env (objs ! i))) (ns ! i)]"
    unfolding show_objs_named(2) [OF ok r len p i later] e by simp
  show "build_events (snd (show_objs env s objs names kw)) (ns ! i) = None"
    by (rule show_objs_named(3) [OF ok r len p i later])
qed

theorem show_replaces_counterexample:
  "reachable env0 s_AA
   \<and> s_AA = snd (show_objs env0 init [Bytes [1], Bytes [2]] (NamesList [''A'', ''A'']) Map.empty)
   \<and> length (filter (live ''A'') (show_events s_AA)) = 2
   \<and> map obj (show_events_of s_AA ''A'' True) = [Bytes [1], Bytes [2]]"
  using reachable_s_AA
  by (simp add: s_AA_def [symmetric] s_AA_fields show_events_of_s_AA live_def new_event_def)

theorem show_replaces_witness:
  "fst (show_objs env0 s_AX [Bytes [8], Bytes [9]] (NamesList [''C'', ''A'']) Map.empty) = Returns ()
   \<and> build_events s_AX ''A'' = Some [[1, 2, 3]]
   \<and> filter (\<lambda>e. name e = ''A'')
         (show_events (snd (show_objs env0 s_AX [Bytes [8], Bytes [9]] (NamesList [''C'', ''A'']) Map.empty)))
       = [new_event env0 Map.empty (Bytes [9]) ''A'']
   \<and> show_events_of (snd (show_objs env0 s_AX [Bytes [8], Bytes [9]] (NamesList [''C'', ''A'']) Map.empty))
         ''A'' True
       = [new_event env0 Map.empty (Bytes [9]) ''A'']
   \<and> build_events (snd (show_objs env0 s_AX [Bytes [8], Bytes [9]] (NamesList [''C'', ''A'']) Map.empty))
         ''A'' = None
   \<and> length (filter (live ''A'')
         (show_events (snd (show_objs env0 s_AX [Bytes [8], Bytes [9]] (NamesList [''C'', ''A'']) Map.empty))))
       \<le> 1"
proof -
  let ?s' = "snd (show_objs env0 s_AX [Bytes [8], Bytes [9]] (NamesList [''C'', ''A'']) Map.empty)"
  have r: "resolve_names env0 (find_var_name_count s_AX) [Bytes [8], Bytes [9]] (NamesList [''C'', ''A''])
      = ([''C'', ''A''], find_var_name_count s_AX)"
    by (simp add: resolve_names_def)
  have p: "\<forall>ob \<in> set [Bytes [8], Bytes [9] :: nat payload]. preprocess env0 ob \<noteq> None"
    by (simp add: preprocess_def)
  have rd: "reachable_once env0 ''A'' ?s'"
    by (rule o_show [OF reachable_once_s_AX]) (simp add: r)
  from show_replaces [of env0 "''A''" ?s' s_AX "[Bytes [8], Bytes [9]]" "NamesList [''C'', ''A'']"
      "[''C'', ''A'']" "find_var_name_count s_AX" "Suc 0" Map.empty] rd reachable_s_AX r p
  show ?thesis by (simp add: preprocess_def s_AX_fields)
qed

text \<open>
  C5. For every name with at least one current show event, in a reachable state,
  \<^verbatim>\<open>remove(name)\<close> returns normally, deletes every log entry of the name from the buffer,
  publishes one tombstone, the latest show event of the name with \<^verbatim>\<open>is_remove\<close> set (so with
  its hash), and leaves no build-cache entry for the name; nothing else changes.
\<close>

theorem remove_tombstone:
  assumes "reachable env s" and "show_events_of s nm True \<noteq> []"
  shows "remove s nm =
     (Returns (),
      s\<lparr>show_events := filter (\<lambda>e. name e \<noteq> nm) (show_events s)
            @ [(last (filter (\<lambda>e. name e = nm) (show_events s)))\<lparr>is_remove := True\<rparr>],
        build_events := (build_events s)(nm := None)\<rparr>)
    \<and> last (filter (\<lambda>e. name e = nm) (show_events s)) = last (show_events_of s nm True)
    \<and> \<not> is_remove (last (show_events_of s nm True))"
proof -
  have l: "log_ok (show_events s)"
    using reachable_state_ok [OF assms(1)] by (simp add: state_ok_def)
  have ne: "filter (live nm) (show_events s) \<noteq> []"
    using assms(2) by (simp add: show_events_of_ok [OF l])
  then obtain e where e: "e \<in> set (show_events s)" "live nm e"
    by (auto simp: filter_empty_conv)
  have f: "filter (live nm) (show_events s) = filter (\<lambda>e. name e = nm) (show_events s)"
    by (rule filter_live_name [OF l e])
  have "live nm (last (filter (live nm) (show_events s)))"
    by (rule last_filter_live [OF ne])
  then have "\<not> is_remove (last (show_events_of s nm True))"
    by (simp add: show_events_of_ok [OF l] live_def)
  moreover have "remove s nm =
     (Returns (),
      s\<lparr>show_events := filter (\<lambda>e. name e \<noteq> nm) (show_events s)
            @ [(last (filter (\<lambda>e. name e = nm) (show_events s)))\<lparr>is_remove := True\<rparr>],
        build_events := (build_events s)(nm := None)\<rparr>)"
    using ne by (simp add: remove_ok [OF l] f [symmetric])
  ultimately show ?thesis by (simp add: show_events_of_ok [OF l] f)
qed


theorem remove_tombstone_witness:
  "build_events s_AX ''A'' = Some [[1, 2, 3]]
   \<and> remove s_AX ''A'' =
       (Returns (),
        s_AX\<lparr>show_events := [(new_event env0 Map.empty (Bytes [1, 2, 3]) ''A'')\<lparr>is_remove := True\<rparr>],
             build_events := (build_events s_AX)(''A'' := None)\<rparr>)
   \<and> build_events (snd (remove s_AX ''A'')) ''A'' = None
   \<and> hash (last (show_events (snd (remove s_AX ''A''))))
       = hash (last (show_events_of s_AX ''A'' True))"
proof -
  have h: "show_events_of s_AX ''A'' True \<noteq> []" by (simp add: show_events_of_s_AX)
  from remove_tombstone [OF reachable_s_AX h]
  show ?thesis by (simp add: s_AX_fields show_events_of_s_AX new_event_def)
qed

text \<open>
  C6, as amended. For every name that was never shown (no event for it in the log),
  \<^verbatim>\<open>remove(name)\<close> returns normally and changes nothing: it raises no error.
\<close>

theorem remove_unknown:
  "nm \<notin> name ` set (show_events s) \<Longrightarrow> remove s nm = (Returns (), s)"
proof -
  assume "nm \<notin> name ` set (show_events s)"
  then have "\<not> (\<exists>e \<in> set (show_events s). live nm e)" by (auto simp: live_def)
  from show_events_of_no_live [OF this] show ?thesis by (simp add: remove_def)
qed


theorem remove_unknown_counterexample:
  "remove (init :: nat yacv) ''A'' = (Returns (), init)"
  by (simp add: remove_def show_events_of_def buffer_def init_def)


theorem remove_unknown_witness:
  "remove s_A ''Z'' = (Returns (), s_A)"
  using remove_unknown [of "''Z''" s_A] by (simp add: s_A_fields new_event_def)

text \<open>
  C7. \<^verbatim>\<open>start()\<close> fails, by a failed assertion and without changing anything, whenever the
  serving thread already exists or startup has completed. Otherwise it spawns the serving
  thread and returns only once \<^verbatim>\<open>startup_complete\<close> is set, with the server in place; when
  the thread never sets the flag (it could not create its server) the caller never returns.
\<close>

theorem start_lifecycle:
  "(server_thread s \<noteq> None \<longrightarrow>
      start env s = (Raises (AssertionError ''Server currently running, cannot start another one''), s))
   \<and> (server_thread s = None \<and> startup_complete s \<longrightarrow>
      start env s = (Raises (AssertionError ''Server already started''), s))
   \<and> (server_thread s = None \<and> \<not> startup_complete s \<longrightarrow>
        server_thread (snd (start env s)) = Some (Thread ''yacv_server'' True)
      \<and> (case make_server env of
            Some srv \<Rightarrow> fst (start env s) = Returns () \<and> startup_complete (snd (start env s))
                        \<and> server (snd (start env s)) = Some srv
          | None \<Rightarrow> fst (start env s) = Blocks \<and> \<not> startup_complete (snd (start env s))))"
  by (auto simp: start_def run_server_def log_to_def Let_def split: option.splits)

theorem start_lifecycle_witness:
  "fst (start env0 init) = Returns ()
   \<and> startup_complete (snd (start env0 init))
   \<and> server_thread (snd (start env0 init)) = Some (Thread ''yacv_server'' True)
   \<and> start env0 (snd (start env0 init))
       = (Raises (AssertionError ''Server currently running, cannot start another one''),
          snd (start env0 init))"
proof -
  have m: "make_server env0 = Some ThreadingHTTPServer" by (simp add: env0_def)
  have i: "server_thread (init :: nat yacv) = None" "\<not> startup_complete (init :: nat yacv)"
    by (simp_all add: init_def)
  from start_lifecycle [of init env0] i
  have 1: "fst (start env0 init) = Returns ()" "startup_complete (snd (start env0 init))"
    "server_thread (snd (start env0 init)) = Some (Thread ''yacv_server'' True)"
    by (simp_all add: m)
  with start_lifecycle [of "snd (start env0 init)" env0] show ?thesis by simp
qed

text \<open>
  C8. \<^verbatim>\<open>stop()\<close> when the server is not running (no serving thread) logs the error
  \<^verbatim>\<open>'Cannot stop server because it is not running'\<close> and returns normally; but for that log
  record the state is unchanged: thread handle, event log and build cache.
\<close>

theorem stop_not_running:
  "server_thread s = None \<Longrightarrow>
   stop s args = (Returns (), s\<lparr>logged := logged s @ [(ERROR, ''Cannot stop server because it is not running'')]\<rparr>)"
  by (simp add: stop_def log_to_def)


theorem stop_not_running_witness:
  "stop (init :: nat yacv) [] =
     (Returns (), init\<lparr>logged := logged init @ [(ERROR, ''Cannot stop server because it is not running'')]\<rparr>)"
  using stop_not_running [of "init :: nat yacv" "[]"] by (simp add: init_def)

text \<open>
  C9. In every reachable state, \<^verbatim>\<open>clear(except_names)\<close> returns normally; it calls
  \<^verbatim>\<open>remove\<close>, in buffer order, for the name of every event whose name is not in
  \<^verbatim>\<open>except_names\<close>, so that afterwards no name outside \<^verbatim>\<open>except_names\<close> has a current
  show event, while the events and the cache entries of the names in \<^verbatim>\<open>except_names\<close> are
  as before. \<^verbatim>\<open>clear()\<close> without names is \<^verbatim>\<open>clear([])\<close>.
\<close>

theorem clear_removes_others:
  assumes "reachable env s"
  shows "clear s None = clear s (Some [])
   \<and> fst (clear s (Some ns)) = Returns ()
   \<and> snd (clear s (Some ns))
       = foldl (\<lambda>s nm. snd (remove s nm)) s (filter (\<lambda>nm. nm \<notin> set ns) (map name (show_events s)))
   \<and> (nm \<notin> set ns \<longrightarrow> show_events_of (snd (clear s (Some ns))) nm True = [])
   \<and> filter (\<lambda>e. name e \<in> set ns) (show_events (snd (clear s (Some ns))))
       = filter (\<lambda>e. name e \<in> set ns) (show_events s)
   \<and> (k \<in> set ns \<longrightarrow> build_events (snd (clear s (Some ns))) k = build_events s k)"
proof -
  define rs where "rs = filter (\<lambda>nm. nm \<notin> set ns) (map name (show_events s))"
  define s' where "s' = foldl (\<lambda>s nm. snd (remove s nm)) s rs"
  have ok: "state_ok s" by (rule reachable_state_ok [OF assms])
  have c: "clear s (Some ns) = (Returns (), s')"
    by (simp add: clear_eq s'_def rs_def)
  have ok': "log_ok (show_events s')"
    using removes_state_ok [OF ok, of rs] by (simp add: s'_def state_ok_def)
  have lv: "show_events_of s' nm True
      = (if nm \<in> set rs then [] else filter (live nm) (show_events s))"
    unfolding show_events_of_ok [OF ok'] unfolding s'_def by (rule removes_lives [OF ok])
  have 1: "show_events_of s' nm True = []" if "nm \<notin> set ns"
  proof (cases "nm \<in> set rs")
    case True
    then show ?thesis by (simp add: lv)
  next
    case False
    with that have "nm \<notin> name ` set (show_events s)" by (auto simp: rs_def)
    then have "filter (live nm) (show_events s) = []"
      by (auto simp: filter_empty_conv live_def)
    with False show ?thesis by (simp add: lv)
  qed
  have "set rs \<inter> set ns = {}" by (auto simp: rs_def)
  from removes_names [OF ok this]
  have 2: "filter (\<lambda>e. name e \<in> set ns) (show_events s') = filter (\<lambda>e. name e \<in> set ns) (show_events s)"
    by (simp add: s'_def)
  have 3: "build_events s' k = build_events s k" if "k \<in> set ns"
    using that by (auto simp: s'_def removes_cache [OF ok] rs_def)
  have 0: "clear s None = clear s (Some [])" by (simp add: clear_def)
  show ?thesis
    unfolding c using 0 1 2 3 by (simp add: s'_def rs_def)
qed

theorem clear_removes_others_witness:
  "fst (clear s_AB (Some [''A''])) = Returns ()
   \<and> show_events_of s_AB ''B'' True = [new_event env0 Map.empty (Cad 2) ''B'']
   \<and> show_events_of (snd (clear s_AB (Some [''A'']))) ''B'' True = []
   \<and> filter (\<lambda>e. name e \<in> set [''A'']) (show_events (snd (clear s_AB (Some [''A'']))))
       = [new_event env0 Map.empty (Bytes [1]) ''A'']"
proof -
  note t = clear_removes_others [OF reachable_s_AB, of "[''A'']" "''B''" "''A''"]
  note c1 = t [THEN conjunct2, THEN conjunct1]
  note c3 = t [THEN conjunct2, THEN conjunct2, THEN conjunct2, THEN conjunct1]
  note c4 = t [THEN conjunct2, THEN conjunct2, THEN conjunct2, THEN conjunct2, THEN conjunct1]
  from c1 c3 c4 show ?thesis
    by (simp add: s_AB_fields show_events_of_s_AB new_event_def)
qed

text \<open>
  C10, as amended. In every reachable state, after a \<^verbatim>\<open>show\<close> call whose objects are
  accepted, an export of a name that the call gave to raw bytes \<^verbatim>\<open>b\<close> and to no later
  object of the same call returns exactly \<^verbatim>\<open>b\<close>, and neither the call nor the export
  invokes the build function. When the call gives the name to a later object as well, the
  export returns the payload of the last object with the name.
\<close>

theorem show_bytes_export_identity:
  assumes "reachable env s"
    and "resolve_names env (find_var_name_count s) objs names = (ns, cnt)"
    and "length ns = length objs"
    and "\<forall>ob \<in> set objs. preprocess env ob \<noteq> None"
    and "i < length ns" and "ns ! i \<notin> set (drop (Suc i) ns)" and "objs ! i = Bytes b"
  shows "fst (show_objs env s objs names kw) = Returns ()
     \<and> fst (export env (snd (show_objs env s objs names kw)) (ns ! i)) = Returns (Some b)
     \<and> tessellated (snd (export env (snd (show_objs env s objs names kw)) (ns ! i)))
         = tessellated s"
proof -
  let ?s' = "snd (show_objs env s objs names kw)"
  have ok: "state_ok s" by (rule reachable_state_ok [OF assms(1)])
  have 1: "fst (show_objs env s objs names kw) = Returns ()"
    by (simp add: show_objs_ok [OF ok assms(2,3,4)])
  have pb: "the (preprocess env (objs ! i)) = Bytes b"
    by (simp add: assms(7) preprocess_def)
  have cur: "show_events_of ?s' (ns ! i) True
      = filter (\<lambda>e. name e = ns ! i)
          (map (\<lambda>p. new_event env kw (the (preprocess env (fst p))) (snd p))
             (zip (take i objs) (take i ns)))
        @ [new_event env kw (Bytes b) (ns ! i)]"
    using show_objs_named(2) [OF ok assms(2-6), of kw] by (simp add: pb)
  have c: "show_events_of ?s' (ns ! i) True \<noteq> []" by (simp add: cur)
  have n: "ns ! i \<notin> dom (build_events ?s')"
    using show_objs_named(3) [OF ok assms(2-6), of kw] by (simp add: domIff)
  have b: "obj (last (show_events_of ?s' (ns ! i) True)) = Bytes b"
    by (simp add: cur new_event_def)
  have t: "tessellated ?s' = tessellated s"
    by (rule tessellated_show_objs [OF ok assms(2,3,4)])
  show ?thesis
    unfolding export_fresh_bytes [OF c n b]
    using 1 t by (simp add: log_to_def)
qed

theorem show_bytes_export_identity_counterexample:
  "s_AA = snd (show_objs env0 init [Bytes [1], Bytes [2]] (NamesList [''A'', ''A'']) Map.empty)
   \<and> map obj (show_events s_AA) = [Bytes [1], Bytes [2]]
   \<and> fst (export env0 s_AA ''A'') = Returns (Some [2])"
proof -
  have c: "show_events_of s_AA ''A'' True \<noteq> []" by (simp add: show_events_of_s_AA)
  have n: "''A'' \<notin> dom (build_events s_AA)" by (simp add: s_AA_fields)
  have b: "obj (last (show_events_of s_AA ''A'' True)) = Bytes [2]"
    by (simp add: show_events_of_s_AA new_event_def)
  have "fst (export env0 s_AA ''A'') = Returns (Some [2])"
    unfolding export_fresh_bytes [OF c n b] by simp
  then show ?thesis
    by (simp add: s_AA_def [symmetric] s_AA_fields new_event_def)
qed

theorem show_bytes_export_identity_witness:
  "obj (last (show_events_of s_AB ''B'' True)) = Cad 2
   \<and> fst (show_objs env0 s_AB [Bytes [6], Bytes [7, 7], Cad 3] (NamesList [''B'', ''B'', ''C''])
           Map.empty) = Returns ()
   \<and> fst (export env0 (snd (show_objs env0 s_AB [Bytes [6], Bytes [7, 7], Cad 3]
                                 (NamesList [''B'', ''B'', ''C'']) Map.empty)) ''B'')
       = Returns (Some [7, 7])
   \<and> tessellated (snd (export env0
         (snd (show_objs env0 s_AB [Bytes [6], Bytes [7, 7], Cad 3]
                 (NamesList [''B'', ''B'', ''C'']) Map.empty)) ''B'')) = []"
proof -
  have r: "resolve_names env0 (find_var_name_count s_AB) [Bytes [6], Bytes [7, 7], Cad 3]
        (NamesList [''B'', ''B'', ''C''])
      = ([''B'', ''B'', ''C''], find_var_name_count s_AB)"
    by (simp add: resolve_names_def)
  have p: "\<forall>ob \<in> set [Bytes [6], Bytes [7, 7], Cad 3 :: nat payload]. preprocess env0 ob \<noteq> None"
    by (simp add: preprocess_def preprocess_cad_def env0_def)
  from show_bytes_export_identity [OF reachable_s_AB r _ p, of "Suc 0" "[7, 7]" Map.empty]
  show ?thesis by (simp add: s_AB_fields show_events_of_s_AB new_event_def)
qed

end
